theory Spec2Isabelle
  imports Main
begin

section \<open>Python primitives the program relies on\<close>

text \<open>
  Strings are lists of characters. The characters of the model are the code points
  below 256; among them Python's \<^verbatim>\<open>str.isspace\<close> holds for exactly the ones listed
  here (tab, line feed, vertical tab, form feed, carriage return, the four
  separators 0x1C..0x1F, space, NEL and the no-break space).
\<close>

definition py_isspace :: "char \<Rightarrow> bool" where
  "py_isspace c =
     (c \<in> set [CHR 0x09, CHR 0x0A, CHR 0x0B, CHR 0x0C, CHR 0x0D, CHR 0x1C, CHR 0x1D,
                CHR 0x1E, CHR 0x1F, CHR 0x20, CHR 0x85, CHR 0xA0])"

text \<open>\<^verbatim>\<open>s.strip()\<close>: leading and trailing whitespace removed.\<close>

definition py_strip :: "string \<Rightarrow> string" where
  "py_strip s = rev (dropWhile py_isspace (rev (dropWhile py_isspace s)))"

text \<open>
  \<^verbatim>\<open>s.split(sep)\<close> for a one-character separator: every occurrence splits, and the
  result always has at least one part (\<^verbatim>\<open>''.split(',') == ['']\<close>).
\<close>

fun split_on :: "char \<Rightarrow> string \<Rightarrow> string list" where
  "split_on sep [] = [[]]"
| "split_on sep (c # cs) =
     (if c = sep then [] # split_on sep cs
      else (case split_on sep cs of
              [] \<Rightarrow> [[c]]
            | p # ps \<Rightarrow> (c # p) # ps))"

text \<open>
  \<^verbatim>\<open>int(s)\<close> on a string, base ten. Whitespace around the number is ignored, but
  not the same whitespace as \<^verbatim>\<open>str.strip\<close> removes: \<^verbatim>\<open>int\<close> skips tab, line feed,
  vertical tab, form feed, carriage return, space, NEL and the no-break space, and
  raises on the separators 0x1C..0x1F. Then one sign is allowed, then decimal
  digits, where single underscores may stand between two digits. A number of more
  than 4300 digits (leading zeros counted, underscores not) is refused, as the
  interpreter's default limit has it. \<open>None\<close> is the \<^verbatim>\<open>ValueError\<close>.
\<close>

definition int_isspace :: "char \<Rightarrow> bool" where
  "int_isspace c =
     (c \<in> set [CHR 0x09, CHR 0x0A, CHR 0x0B, CHR 0x0C, CHR 0x0D, CHR 0x20, CHR 0x85, CHR 0xA0])"

definition int_strip :: "string \<Rightarrow> string" where
  "int_strip s = rev (dropWhile int_isspace (rev (dropWhile int_isspace s)))"

definition is_digit :: "char \<Rightarrow> bool" where
  "is_digit c = (c \<in> set ''0123456789'')"

definition digit_val :: "char \<Rightarrow> nat" where
  "digit_val c = of_char c - 48"

definition int_max_str_digits :: nat where
  "int_max_str_digits = 4300"

fun digit_run :: "nat \<Rightarrow> string \<Rightarrow> nat option" where
  "digit_run acc [] = Some acc"
| "digit_run acc (c # cs) =
     (if is_digit c then digit_run (10 * acc + digit_val c) cs
      else if c = CHR ''_'' then
        (case cs of
           [] \<Rightarrow> None
         | d # ds \<Rightarrow> if is_digit d then digit_run (10 * acc + digit_val d) ds else None)
      else None)"

definition py_digits :: "string \<Rightarrow> nat option" where
  "py_digits s =
     (if length (filter is_digit s) > int_max_str_digits then None
      else
        (case s of
           [] \<Rightarrow> None
         | c # cs \<Rightarrow> if is_digit c then digit_run (digit_val c) cs else None))"

definition py_int :: "string \<Rightarrow> int option" where
  "py_int s =
     (case int_strip s of
        [] \<Rightarrow> None
      | c # cs \<Rightarrow>
          if c = CHR ''-'' then map_option (\<lambda>n. - int n) (py_digits cs)
          else if c = CHR ''+'' then map_option int (py_digits cs)
          else map_option int (py_digits (c # cs)))"

text \<open>\<^verbatim>\<open>range(a, b)\<close> as a list: the integers from \<open>a\<close> up to \<open>b - 1\<close>.\<close>

definition py_range :: "int \<Rightarrow> int \<Rightarrow> int list" where
  "py_range a b = [a..b - 1]"

section \<open>Page range parser\<close>

text \<open>
  One iteration of the loop of \<^verbatim>\<open>parse_page_range\<close> (lines 65-80): \<open>Some ps\<close> holds
  the indices the iteration appends to \<^verbatim>\<open>pages\<close>; \<open>None\<close> is an exception inside
  the \<^verbatim>\<open>try\<close>, which makes the function return the empty list. In the range
  branch the unpacking \<^verbatim>\<open>start, end = map(int, part.split('-'))\<close> raises unless there
  are exactly two parts and both are integers.
\<close>

definition page_term :: "int \<Rightarrow> string \<Rightarrow> int list option" where
  "page_term total_pages part =
     (if CHR ''-'' \<in> set part then
        (case split_on CHR ''-'' part of
           [a, b] \<Rightarrow>
             (case (py_int a, py_int b) of
                (Some start, Some end) \<Rightarrow>
                  Some (py_range (max 1 start - 1) (min total_pages end))
              | _ \<Rightarrow> None)
         | _ \<Rightarrow> None)
      else
        (case py_int part of
           None \<Rightarrow> None
         | Some page \<Rightarrow>
             Some (if 1 \<le> page \<and> page \<le> total_pages then [page - 1] else [])))"

fun page_loop :: "int \<Rightarrow> string list \<Rightarrow> int list \<Rightarrow> int list option" where
  "page_loop total_pages [] pages = Some pages"
| "page_loop total_pages (part # parts) pages =
     (case page_term total_pages part of
        None \<Rightarrow> None
      | Some ps \<Rightarrow> page_loop total_pages parts (pages @ ps))"

definition parse_page_range :: "string \<Rightarrow> int \<Rightarrow> int list" where
  "parse_page_range page_range_str total_pages =
     (if py_strip page_range_str = [] then py_range 0 total_pages
      else
        (case page_loop total_pages (split_on CHR '','' page_range_str) [] of
           None \<Rightarrow> []
         | Some pages \<Rightarrow> sort (remdups pages)))"

text \<open>
  The specification's reading of a term, stated apart from the code: a term parses
  when it is an integer, or two integers around one hyphen; a parsing term
  contributes the zero-based indices of its clamped range, none when the clamped
  range is empty.
\<close>

definition term_parses :: "string \<Rightarrow> bool" where
  "term_parses part =
     (if CHR ''-'' \<in> set part then
        (case split_on CHR ''-'' part of
           [a, b] \<Rightarrow> py_int a \<noteq> None \<and> py_int b \<noteq> None
         | _ \<Rightarrow> False)
      else py_int part \<noteq> None)"

definition term_pages :: "int \<Rightarrow> string \<Rightarrow> int list" where
  "term_pages total_pages part =
     (if CHR ''-'' \<in> set part then
        (case split_on CHR ''-'' part of
           [a, b] \<Rightarrow>
             (case (py_int a, py_int b) of
                (Some start, Some end) \<Rightarrow>
                  if max 1 start > min total_pages end then []
                  else [max 1 start - 1..min total_pages end - 1]
              | _ \<Rightarrow> [])
         | _ \<Rightarrow> [])
      else
        (case py_int part of
           None \<Rightarrow> []
         | Some page \<Rightarrow> if 1 \<le> page \<and> page \<le> total_pages then [page - 1] else []))"

section \<open>Chunk splitter\<close>

text \<open>
  The tokenizer is the object \<^verbatim>\<open>tiktoken.get_encoding("cl100k_base")\<close>, which is not
  part of the repository: the program only calls its two methods, so the model takes
  them as a pair of functions, both taken to return on every input. Token ids are
  natural numbers.
\<close>

record encoding =
  encode :: "string \<Rightarrow> nat list"
  decode :: "nat list \<Rightarrow> string"

text \<open>
  Python's slices \<^verbatim>\<open>xs[:k]\<close> and \<^verbatim>\<open>xs[k:]\<close>; a negative \<open>k\<close> counts from the end.
\<close>

definition py_slice_to :: "int \<Rightarrow> 'a list \<Rightarrow> 'a list" where
  "py_slice_to k xs =
     (if 0 \<le> k then take (nat k) xs else take (length xs - nat (- k)) xs)"

definition py_slice_from :: "int \<Rightarrow> 'a list \<Rightarrow> 'a list" where
  "py_slice_from k xs =
     (if 0 \<le> k then drop (nat k) xs else drop (length xs - nat (- k)) xs)"

text \<open>
  The inner \<^verbatim>\<open>while tokens:\<close> loop (lines 34-38). Nothing in the code bounds the
  number of iterations, so the loop is a partial function: \<open>None\<close> means that it
  does not return.
\<close>

partial_function (option) slice_loop ::
  "encoding \<Rightarrow> int \<Rightarrow> nat list \<Rightarrow> string list \<Rightarrow> string list option" where
  "slice_loop enc max_tokens tokens out =
     (if tokens = [] then Some out
      else
        let take_n = min (int (length tokens)) max_tokens;
            chunk_tokens = py_slice_to take_n tokens
        in slice_loop enc max_tokens (py_slice_from take_n tokens)
             (out @ [decode enc chunk_tokens]))"

declare slice_loop.simps [code]

text \<open>The three variables the paragraph loop updates (lines 14-16).\<close>

record splitter_state =
  chunks :: "string list"
  current_chunk :: "nat list"
  current_token_count :: int

text \<open>The body of \<^verbatim>\<open>for para in paragraphs:\<close> (lines 19-49).\<close>

definition para_step ::
  "encoding \<Rightarrow> int \<Rightarrow> string \<Rightarrow> splitter_state \<Rightarrow> splitter_state option" where
  "para_step enc max_tokens para st =
     (let para_tokens = encode enc para;
          para_token_count = int (length para_tokens)
      in
        if current_token_count st + para_token_count > max_tokens then
          let st1 =
                (if current_chunk st \<noteq> [] then
                   st\<lparr>chunks := chunks st @ [decode enc (current_chunk st)],
                      current_chunk := [],
                      current_token_count := 0\<rparr>
                 else st)
          in
            if para_token_count > max_tokens then
              (case slice_loop enc max_tokens para_tokens (chunks st1) of
                 None \<Rightarrow> None
               | Some out \<Rightarrow> Some (st1\<lparr>chunks := out\<rparr>))
            else
              Some (st1\<lparr>current_chunk := para_tokens,
                         current_token_count := para_token_count\<rparr>)
        else
          Some (st\<lparr>current_chunk :=
                       current_chunk st @ para_tokens @ encode enc [CHR 0x0A],
                    current_token_count := current_token_count st + para_token_count + 1\<rparr>))"

fun para_loop ::
  "encoding \<Rightarrow> int \<Rightarrow> string list \<Rightarrow> splitter_state \<Rightarrow> splitter_state option" where
  "para_loop enc max_tokens [] st = Some st"
| "para_loop enc max_tokens (para # paragraphs) st =
     (case para_step enc max_tokens para st of
        None \<Rightarrow> None
      | Some st' \<Rightarrow> para_loop enc max_tokens paragraphs st')"

definition split_text_into_chunks :: "string \<Rightarrow> int \<Rightarrow> encoding \<Rightarrow> string list option" where
  "split_text_into_chunks text max_tokens enc =
     (case para_loop enc max_tokens (split_on CHR 0x0A text)
             \<lparr>chunks = [], current_chunk = [], current_token_count = 0\<rparr> of
        None \<Rightarrow> None
      | Some st \<Rightarrow>
          Some (if current_chunk st \<noteq> [] then chunks st @ [decode enc (current_chunk st)]
                else chunks st))"

text \<open>
  A tokenizer to run the splitter on: one token per character, the token id being
  the character's code. On the inputs used below the real tokenizer gives the same
  counts (the empty string has no token; a letter and a line feed have one each).
\<close>

definition char_encoding :: encoding where
  "char_encoding = \<lparr>encode = map of_char, decode = map char_of\<rparr>"

text \<open>
  The specification's slices of an oversize paragraph, stated apart from the code:
  consecutive runs of \<open>n\<close> tokens, the last one possibly shorter.
\<close>

function token_slices :: "nat \<Rightarrow> 'a list \<Rightarrow> 'a list list" where
  "token_slices n xs =
     (if n = 0 \<or> xs = [] then [] else take n xs # token_slices n (drop n xs))"
  by pat_completeness auto
termination
  by (relation "measure (\<lambda>(n, xs). length xs)") auto

declare token_slices.simps [simp del]

text \<open>
  For the bound on the chunks: a list of chunks is within \<open>b\<close> when each is the
  decoding of at most \<open>b\<close> tokens; the invariant of the paragraph loop says so of
  the emitted chunks and of the buffer, whose counter is its length.
\<close>

definition chunks_within :: "encoding \<Rightarrow> int \<Rightarrow> string list \<Rightarrow> bool" where
  "chunks_within enc b cs = (\<exists>tss. cs = map (decode enc) tss \<and> (\<forall>ts \<in> set tss. int (length ts) \<le> b))"

definition budget_inv :: "encoding \<Rightarrow> int \<Rightarrow> splitter_state \<Rightarrow> bool" where
  "budget_inv enc m st =
     (chunks_within enc (m + 1) (chunks st) \<and>
      int (length (current_chunk st)) = current_token_count st \<and>
      current_token_count st \<le> m + 1)"

section \<open>Extraction orchestrator\<close>

text \<open>
  \<^verbatim>\<open>generate_prompt\<close> (lines 102-117). The parameter \<open>columns\<close> is the text the
  f-string puts for the column list (Python's \<^verbatim>\<open>str\<close> of the list). The doubled
  braces of the f-string leave the placeholder \<^verbatim>\<open>{text}\<close> in the result.
\<close>

definition generate_prompt :: "string \<Rightarrow> string \<Rightarrow> string" where
  "generate_prompt columns instructions =
     [CHR 0x0A] @
     ''    Extract structured data from the following text. Follow these requirements:'' @
     [CHR 0x0A] @
     ''    1. Output only JSON format with a list of objects'' @ [CHR 0x0A] @
     ''    2. Use exactly these column names: '' @ columns @ [CHR 0x0A] @
     ''    3. '' @ instructions @ [CHR 0x0A] @
     ''    4. Maintain data types (string, number, date)'' @ [CHR 0x0A] @
     ''    5. Return empty string if information not available'' @ [CHR 0x0A] @
     ''    '' @ [CHR 0x0A] @
     ''    Text content:'' @ [CHR 0x0A] @
     ''    {text}'' @ [CHR 0x0A] @
     ''    '' @ [CHR 0x0A] @
     ''    JSON output:'' @ [CHR 0x0A] @
     ''    ''"

text \<open>
  The regular expression \<^verbatim>\<open>\{.*?}\<close> of line 161. \<open>lazy_match\<close> is the part after the
  opening brace: the shortest run of characters other than a line feed that is
  followed by a closing brace; it returns the run and the text after the brace.
  \<open>re_findall_objects\<close> is \<^verbatim>\<open>re.findall\<close>: the matches from left to right, the search
  resuming after each match, and one character further where none starts.
\<close>

fun lazy_match :: "string \<Rightarrow> (string \<times> string) option" where
  "lazy_match [] = None"
| "lazy_match (c # cs) =
     (if c = CHR 0x7D then Some ([], cs)
      else if c = CHR 0x0A then None
      else (case lazy_match cs of
              None \<Rightarrow> None
            | Some (body, rest) \<Rightarrow> Some (c # body, rest)))"

function re_findall_objects :: "string \<Rightarrow> string list" where
  "re_findall_objects [] = []"
| "re_findall_objects (c # cs) =
     (if c = CHR 0x7B then
        (case lazy_match cs of
           None \<Rightarrow> re_findall_objects cs
         | Some (body, rest) \<Rightarrow> (c # body @ [CHR 0x7D]) # re_findall_objects rest)
      else re_findall_objects cs)"
  by pat_completeness auto
termination
proof (relation "measure length")
  have shorter: "length rest \<le> length cs"
    if "lazy_match cs = Some (body, rest)" for cs body rest
    using that
  proof (induction cs arbitrary: body)
    case Nil
    then show ?case by simp
  next
    case (Cons c cs)
    then show ?case
      by (fastforce split: if_splits option.splits)
  qed
  fix c :: char and cs x2 body rest
  assume "lazy_match cs = Some x2" and "(body, rest) = x2"
  then have "lazy_match cs = Some (body, rest)" by simp
  from shorter [OF this] show "(rest, c # cs) \<in> measure length" by simp
qed auto

text \<open>\<^verbatim>\<open>json_str.replace("\n", " ")\<close>.\<close>

definition flatten_newlines :: "string \<Rightarrow> string" where
  "flatten_newlines json_str = map (\<lambda>c. if c = CHR 0x0A then CHR 0x20 else c) json_str"

text \<open>
  The services the orchestrator calls that are not code of the repository:
  the tokenizer, \<^verbatim>\<open>str.format(text=...)\<close> on the prompt template (\<open>None\<close> when it
  raises, as it does on a stray brace in the instructions), the chat completion
  (its argument is the number of the call and the prompt; the result is the
  message content, or the exception raised by the call or by reading the content)
  and \<^verbatim>\<open>json.loads\<close> (\<open>None\<close> when it raises).
\<close>

datatype py_exception =
  APIConnectionError | RateLimitError | APIError | FormatError | OtherError

record 'j services =
  tokenizer :: encoding
  format_text :: "string \<Rightarrow> string \<Rightarrow> string option"
  create_completion :: "nat \<Rightarrow> string \<Rightarrow> py_exception + string"
  json_loads :: "string \<Rightarrow> 'j option"

text \<open>The messages the orchestrator reports with \<^verbatim>\<open>st.error\<close>.\<close>

datatype report =
  Prompt_too_long | Error_processing_chunk py_exception | Error_during_extraction

text \<open>Lines 160-166: every candidate is parsed on its own; a failure is passed over.\<close>

fun collect_objects :: "(string \<Rightarrow> 'j option) \<Rightarrow> string list \<Rightarrow> 'j list \<Rightarrow> 'j list" where
  "collect_objects loads [] data = data"
| "collect_objects loads (x # xs) data =
     (case loads x of
        None \<Rightarrow> collect_objects loads xs data
      | Some dict_f \<Rightarrow> collect_objects loads xs (data @ [dict_f]))"

definition parse_response :: "(string \<Rightarrow> 'j option) \<Rightarrow> string \<Rightarrow> 'j list" where
  "parse_response loads json_str =
     collect_objects loads (re_findall_objects (flatten_newlines json_str)) []"

text \<open>
  The body of the inner \<^verbatim>\<open>try\<close> for one chunk (lines 149-166): \<open>Inl e\<close> when the
  rendering of the prompt or the completion call raises, else the parsed objects.
\<close>

definition process_chunk ::
  "'j services \<Rightarrow> string \<Rightarrow> nat \<Rightarrow> string \<Rightarrow> py_exception + 'j list" where
  "process_chunk srv prompt_template i chunk =
     (case format_text srv prompt_template chunk of
        None \<Rightarrow> Inl FormatError
      | Some prompt \<Rightarrow>
          (case create_completion srv i prompt of
             Inl e \<Rightarrow> Inl e
           | Inr json_str \<Rightarrow> Inr (parse_response (json_loads srv) json_str)))"

text \<open>
  The loop \<^verbatim>\<open>for chunk in text_chunks:\<close> (lines 147-178) on the pair of the
  reports made so far and \<^verbatim>\<open>all_data\<close>.
\<close>

fun chunk_loop ::
  "'j services \<Rightarrow> string \<Rightarrow> nat \<Rightarrow> string list \<Rightarrow> report list \<times> 'j list
     \<Rightarrow> report list \<times> 'j list" where
  "chunk_loop srv prompt_template i [] st = st"
| "chunk_loop srv prompt_template i (chunk # rest) (reports, all_data) =
     (case process_chunk srv prompt_template i chunk of
        Inl e \<Rightarrow>
          chunk_loop srv prompt_template (Suc i) rest
            (reports @ [Error_processing_chunk e], all_data)
      | Inr data \<Rightarrow>
          chunk_loop srv prompt_template (Suc i) rest (reports, all_data @ data))"

text \<open>Lines 143-183: what the orchestrator does with the chunks of the splitter.\<close>

definition extract_from_chunks ::
  "'j services \<Rightarrow> string \<Rightarrow> string list \<Rightarrow> bool \<Rightarrow> report list \<times> 'j list" where
  "extract_from_chunks srv prompt_template text_chunks multiple_rows =
     (if text_chunks = [] then ([], [])
      else
        (case chunk_loop srv prompt_template 0 text_chunks ([], []) of
           (reports, all_data) \<Rightarrow>
             if \<not> multiple_rows \<and> all_data \<noteq> [] then (reports, [hd all_data])
             else (reports, all_data)))"

definition model_max_tokens :: int where
  "model_max_tokens = 128000"

definition reserved_response_tokens :: int where
  "reserved_response_tokens = 2000"

text \<open>
  Lines 131-135: the budget left for the text, \<open>None\<close> when rendering the static
  prompt raises.
\<close>

definition available_tokens :: "'j services \<Rightarrow> string \<Rightarrow> string \<Rightarrow> int option" where
  "available_tokens srv columns instructions =
     (case format_text srv (generate_prompt columns instructions) [] of
        None \<Rightarrow> None
      | Some static_prompt \<Rightarrow>
          Some (model_max_tokens - int (length (encode (tokenizer srv) static_prompt))
                  - reserved_response_tokens))"

text \<open>
  \<^verbatim>\<open>extract_data_with_openai\<close> (lines 119-192). The result is the list of reports
  and the returned records; \<open>None\<close> means that the call does not return. An
  exception of the rendering of the static prompt reaches the last handler, which
  reports it and returns the empty list. The exceptions of the completion calls are
  caught chunk by chunk, so the handlers for the API errors are never reached.
\<close>

definition extract_data_with_openai ::
  "'j services \<Rightarrow> string \<Rightarrow> string \<Rightarrow> string \<Rightarrow> bool \<Rightarrow> (report list \<times> 'j list) option" where
  "extract_data_with_openai srv text columns instructions multiple_rows =
     (if py_strip text = [] then Some ([], [])
      else
        (case available_tokens srv columns instructions of
           None \<Rightarrow> Some ([Error_during_extraction], [])
         | Some available \<Rightarrow>
             if available \<le> 0 then Some ([Prompt_too_long], [])
             else
               (case split_text_into_chunks text available (tokenizer srv) of
                  None \<Rightarrow> None
                | Some text_chunks \<Rightarrow>
                    Some (extract_from_chunks srv (generate_prompt columns instructions)
                            text_chunks multiple_rows))))"

text \<open>
  Stand-ins for the services, to run the orchestrator on: a formatter that puts the
  text for each \<^verbatim>\<open>{text}\<close>, a completion service whose second call fails, and a
  parser that knows one object.
\<close>

fun subst_text :: "string \<Rightarrow> string \<Rightarrow> string" where
  "subst_text [] t = []"
| "subst_text (c # cs) t =
     (if take 6 (c # cs) = ''{text}'' then t @ subst_text (drop 5 cs) t
      else c # subst_text cs t)"

definition test_object :: string where
  "test_object = [CHR 0x7B, CHR 0x22, CHR ''a'', CHR 0x22, CHR '':'', CHR '' '', CHR ''1'', CHR 0x7D]"

definition test_services :: "(string \<times> int) list services" where
  "test_services =
     \<lparr>tokenizer = char_encoding,
      format_text = (\<lambda>template t. Some (subst_text template t)),
      create_completion =
        (\<lambda>i prompt. if i = 1 then Inl RateLimitError
                     else Inr (''Here is the data: '' @ test_object @ '' and more text'')),
      json_loads = (\<lambda>x. if x = test_object then Some [(''a'', 1)] else None)\<rparr>"

text \<open>
  What one chunk contributes, stated apart from the loop: its parsed objects (none
  when the chunk fails) and its report (one when the chunk fails), and the lists of
  these over the chunks, the chunk at position \<open>k\<close> being the call number \<open>i + k\<close>.
\<close>

definition chunk_records :: "'j services \<Rightarrow> string \<Rightarrow> nat \<Rightarrow> string \<Rightarrow> 'j list" where
  "chunk_records srv prompt_template i chunk =
     (case process_chunk srv prompt_template i chunk of
        Inl e \<Rightarrow> []
      | Inr data \<Rightarrow> data)"

definition chunk_failure :: "'j services \<Rightarrow> string \<Rightarrow> nat \<Rightarrow> string \<Rightarrow> report list" where
  "chunk_failure srv prompt_template i chunk =
     (case process_chunk srv prompt_template i chunk of
        Inl e \<Rightarrow> [Error_processing_chunk e]
      | Inr data \<Rightarrow> [])"

definition per_chunk_records :: "'j services \<Rightarrow> string \<Rightarrow> nat \<Rightarrow> string list \<Rightarrow> 'j list list" where
  "per_chunk_records srv prompt_template i text_chunks =
     map (\<lambda>(k, chunk). chunk_records srv prompt_template k chunk) (enumerate i text_chunks)"

definition per_chunk_failures :: "'j services \<Rightarrow> string \<Rightarrow> nat \<Rightarrow> string list \<Rightarrow> report list list" where
  "per_chunk_failures srv prompt_template i text_chunks =
     map (\<lambda>(k, chunk). chunk_failure srv prompt_template k chunk) (enumerate i text_chunks)"

section \<open>Properties of the page range parser\<close>

lemma split_on_no_sep: "sep \<notin> set s \<Longrightarrow> split_on sep s = [s]"
  by (induction s) auto

lemma page_term_bounds:
  assumes "page_term total_pages part = Some ps" and "p \<in> set ps"
  shows "0 \<le> p \<and> p < total_pages"
  using assms
  by (auto simp: page_term_def py_range_def split: if_splits list.splits option.splits)

lemma page_loop_bounds:
  assumes "page_loop total_pages parts pages = Some out"
    and "\<forall>p \<in> set pages. 0 \<le> p \<and> p < total_pages"
  shows "\<forall>p \<in> set out. 0 \<le> p \<and> p < total_pages"
  using assms
proof (induction parts arbitrary: pages)
  case Nil
  then show ?case by simp
next
  case (Cons part parts)
  from Cons.prems(1) obtain ps where
    t: "page_term total_pages part = Some ps" and
    l: "page_loop total_pages parts (pages @ ps) = Some out"
    by (auto split: option.splits)
  have "\<forall>p \<in> set (pages @ ps). 0 \<le> p \<and> p < total_pages"
    using Cons.prems(2) page_term_bounds [OF t] by auto
  from Cons.IH [OF l this] show ?case .
qed

lemma parse_page_range_bounds:
  assumes "p \<in> set (parse_page_range s total_pages)"
  shows "0 \<le> p \<and> p < total_pages"
proof (cases "py_strip s = []")
  case True
  with assms show ?thesis by (simp add: parse_page_range_def py_range_def)
next
  case False
  show ?thesis
  proof (cases "page_loop total_pages (split_on CHR '','' s) []")
    case None
    with False assms show ?thesis by (simp add: parse_page_range_def)
  next
    case (Some pages)
    have "\<forall>q \<in> set pages. 0 \<le> q \<and> q < total_pages"
      using page_loop_bounds [OF Some] by simp
    moreover have "p \<in> set pages"
      using assms False Some by (simp add: parse_page_range_def)
    ultimately show ?thesis by blast
  qed
qed

lemma parse_page_range_sorted: "sorted (parse_page_range s total_pages)"
  by (simp add: parse_page_range_def py_range_def split: option.splits)

lemma parse_page_range_distinct: "distinct (parse_page_range s total_pages)"
  by (simp add: parse_page_range_def py_range_def split: option.splits)

text \<open>
  Claim C7. For every range expression and every page count, the list returned by
  \<open>parse_page_range\<close> is sorted ascending, has no duplicates, and every element
  lies in \<open>[0, total_pages)\<close>; an empty or whitespace-only expression returns
  exactly the indices \<open>0 .. total_pages - 1\<close>; and with \<open>total_pages = 0\<close> the
  result is empty whatever the expression.
\<close>

theorem parse_page_range_sorted_distinct_in_range:
  "sorted (parse_page_range s total_pages) \<and>
   distinct (parse_page_range s total_pages) \<and>
   (\<forall>p \<in> set (parse_page_range s total_pages). 0 \<le> p \<and> p < total_pages) \<and>
   (py_strip s = [] \<longrightarrow> parse_page_range s total_pages = [0..total_pages - 1]) \<and>
   (total_pages = 0 \<longrightarrow> parse_page_range s total_pages = [])"
proof -
  have in_range: "\<forall>p \<in> set (parse_page_range s total_pages). 0 \<le> p \<and> p < total_pages"
    using parse_page_range_bounds by blast
  have blank: "py_strip s = [] \<longrightarrow> parse_page_range s total_pages = [0..total_pages - 1]"
    by (simp add: parse_page_range_def py_range_def)
  have zero: "total_pages = 0 \<longrightarrow> parse_page_range s total_pages = []"
  proof
    assume z: "total_pages = 0"
    have "\<forall>p \<in> set (parse_page_range s total_pages). False"
      using in_range z by fastforce
    then show "parse_page_range s total_pages = []"
      by (cases "parse_page_range s total_pages") auto
  qed
  show ?thesis
    using parse_page_range_sorted parse_page_range_distinct in_range blank zero by blast
qed

theorem parse_page_range_sorted_distinct_in_range_witness:
  "parse_page_range ''3, 1-2,2'' 4 = [0, 1, 2] \<and>
   sorted (parse_page_range ''3, 1-2,2'' 4) \<and>
   distinct (parse_page_range ''3, 1-2,2'' 4) \<and>
   list_all (\<lambda>p. 0 \<le> p \<and> p < 4) (parse_page_range ''3, 1-2,2'' 4) \<and>
   py_strip ''  '' = [] \<and> parse_page_range ''  '' 3 = [0, 1, 2] \<and>
   parse_page_range ''1-3,5'' 0 = []"
proof -
  have e: "parse_page_range ''3, 1-2,2'' 4 = [0, 1, 2]" by code_simp
  have b: "py_strip ''  '' = []" by code_simp
  have u: "[0..(3::int) - 1] = [0, 1, 2]" by code_simp
  note t1 = parse_page_range_sorted_distinct_in_range [of "''3, 1-2,2''" 4]
  note t2 = parse_page_range_sorted_distinct_in_range [of "''  ''" 3]
  note t3 = parse_page_range_sorted_distinct_in_range [of "''1-3,5''" 0]
  have "list_all (\<lambda>p. 0 \<le> p \<and> p < 4) (parse_page_range ''3, 1-2,2'' 4)"
    using t1 by (simp only: list_all_iff) blast
  moreover have "parse_page_range ''  '' 3 = [0, 1, 2]"
    using t2 b u by simp
  moreover have "parse_page_range ''1-3,5'' 0 = []"
    using t3 by simp
  ultimately show ?thesis using e b t1 by blast
qed

lemma page_loop_fails:
  assumes "part \<in> set parts" and "page_term total_pages part = None"
  shows "page_loop total_pages parts pages = None"
  using assms
  by (induction parts arbitrary: pages) (auto split: option.splits)

lemma term_parses_iff: "term_parses part \<longleftrightarrow> page_term total_pages part \<noteq> None"
  by (auto simp: term_parses_def page_term_def split: list.splits option.splits)

lemma page_term_pages:
  assumes "page_term total_pages part = Some ps"
  shows "ps = term_pages total_pages part"
  using assms
  by (auto simp: page_term_def term_pages_def py_range_def
           split: if_splits list.splits option.splits)

lemma page_loop_pages:
  assumes "\<forall>part \<in> set parts. term_parses part"
  shows "page_loop total_pages parts pages =
           Some (pages @ concat (map (term_pages total_pages) parts))"
  using assms
proof (induction parts arbitrary: pages)
  case Nil
  then show ?case by simp
next
  case (Cons part parts)
  from Cons.prems have "term_parses part" by simp
  then obtain ps where t: "page_term total_pages part = Some ps"
    using term_parses_iff [of part total_pages] by auto
  have ps: "ps = term_pages total_pages part" using page_term_pages [OF t] .
  have "\<forall>q \<in> set parts. term_parses q" using Cons.prems by simp
  from Cons.IH [OF this, of "pages @ ps"] show ?case using t ps by simp
qed

text \<open>
  The integer parser at its limits: a term of 4301 digits does not parse, one of
  4300 zeros does.
\<close>

lemma py_int_digit_limit:
  "py_int (replicate 4301 CHR ''1'') = None \<and> py_int (replicate 4301 CHR ''0'') = None \<and>
   py_int (replicate 4300 CHR ''0'') = Some 0"
proof -
  have r: "replicate 4301 c = c # replicate 4300 c" for c :: char
    using replicate_Suc [of 4300 c] by simp
  have r0: "replicate 4300 c = c # replicate 4299 c" for c :: char
    using replicate_Suc [of 4299 c] by simp
  have over: "py_int (replicate 4301 c) = None" if d: "is_digit c" for c
  proof -
    have w: "\<not> int_isspace c" using d by (auto simp: is_digit_def int_isspace_def)
    have sg: "c \<noteq> CHR ''-'' \<and> c \<noteq> CHR ''+''" using d by (auto simp: is_digit_def)
    have s: "int_strip (replicate 4301 c) = c # replicate 4300 c"
      using w by (simp add: int_strip_def r [symmetric])
    have "py_digits (replicate 4301 c) = None"
      using d by (simp add: py_digits_def int_max_str_digits_def)
    then have p: "py_digits (c # replicate 4300 c) = None" by (simp only: r)
    show ?thesis using sg p by (simp add: py_int_def s)
  qed
  have run: "digit_run 0 (replicate n CHR ''0'') = Some 0" for n
    by (induction n) (simp_all add: is_digit_def digit_val_def)
  have zero: "py_int (replicate 4300 CHR ''0'') = Some 0"
  proof -
    have s: "int_strip (replicate 4300 CHR ''0'') = CHR ''0'' # replicate 4299 CHR ''0''"
      by (simp add: int_strip_def int_isspace_def r0 [symmetric])
    have l: "length (filter is_digit (CHR ''0'' # replicate 4299 CHR ''0'')) = 4300"
      by (simp add: is_digit_def)
    have "py_digits (CHR ''0'' # replicate 4299 CHR ''0'') = Some 0"
      unfolding py_digits_def l using run [of 4299]
      by (simp add: int_max_str_digits_def is_digit_def digit_val_def)
    then show ?thesis by (simp add: py_int_def s)
  qed
  show ?thesis using over [of "CHR ''1''"] over [of "CHR ''0''"] zero
    by (simp add: is_digit_def)
qed

text \<open>
  Claim C8. In \<open>parse_page_range\<close> on a non-blank expression, any term that fails to
  parse as an integer or as an integer range invalidates the whole expression (the
  result is empty), whereas a range term whose clamped range is empty contributes
  nothing while the other terms still contribute: when every term parses, the
  result is the sorted, duplicate-free union of the terms' pages. The examples:
  \<open>abc\<close> is empty because it does not parse, \<open>2-1\<close> is empty because its clamped
  range is, and \<open>1-3,5\<close> on five pages is \<open>[0, 1, 2, 4]\<close>.
  A term parses exactly when \<^verbatim>\<open>int\<close> accepts it (or both sides of its one hyphen):
  a separator character 0x1C..0x1F beside the digits, or more than 4300 digits, make
  the term, and so the expression, invalid.
\<close>

theorem parse_page_range_invalid_term_vs_empty_range:
  "(py_strip s \<noteq> [] \<and> (\<exists>part \<in> set (split_on CHR '','' s). \<not> term_parses part)
      \<longrightarrow> parse_page_range s total_pages = []) \<and>
   (py_strip s \<noteq> [] \<and> (\<forall>part \<in> set (split_on CHR '','' s). term_parses part)
      \<longrightarrow> parse_page_range s total_pages =
            sort (remdups (concat (map (term_pages total_pages) (split_on CHR '','' s))))) \<and>
   (py_int a = Some start \<and> py_int b = Some end \<and> CHR ''-'' \<notin> set a \<and> CHR ''-'' \<notin> set b \<and>
      max 1 start > min total_pages end
      \<longrightarrow> term_parses (a @ ''-'' @ b) \<and> term_pages total_pages (a @ ''-'' @ b) = []) \<and>
   \<not> term_parses ''abc'' \<and> parse_page_range ''abc'' 5 = [] \<and>
   term_parses ''2-1'' \<and> term_pages 5 ''2-1'' = [] \<and> parse_page_range ''2-1'' 5 = [] \<and>
   parse_page_range ''2-1,4'' 5 = [3] \<and>
   parse_page_range ''1-3,5'' 5 = [0, 1, 2, 4]"
proof -
  have invalid: "py_strip s \<noteq> [] \<and> (\<exists>part \<in> set (split_on CHR '','' s). \<not> term_parses part)
      \<longrightarrow> parse_page_range s total_pages = []"
  proof
    assume h: "py_strip s \<noteq> [] \<and> (\<exists>part \<in> set (split_on CHR '','' s). \<not> term_parses part)"
    then obtain part where p: "part \<in> set (split_on CHR '','' s)" and n: "\<not> term_parses part"
      by blast
    from n have "page_term total_pages part = None"
      using term_parses_iff [of part total_pages] by simp
    from page_loop_fails [OF p this]
    have "page_loop total_pages (split_on CHR '','' s) [] = None" .
    with h show "parse_page_range s total_pages = []"
      by (simp add: parse_page_range_def)
  qed
  have valid: "py_strip s \<noteq> [] \<and> (\<forall>part \<in> set (split_on CHR '','' s). term_parses part)
      \<longrightarrow> parse_page_range s total_pages =
            sort (remdups (concat (map (term_pages total_pages) (split_on CHR '','' s))))"
  proof
    assume h: "py_strip s \<noteq> [] \<and> (\<forall>part \<in> set (split_on CHR '','' s). term_parses part)"
    then have "page_loop total_pages (split_on CHR '','' s) [] =
                 Some ([] @ concat (map (term_pages total_pages) (split_on CHR '','' s)))"
      using page_loop_pages by blast
    with h show "parse_page_range s total_pages =
            sort (remdups (concat (map (term_pages total_pages) (split_on CHR '','' s))))"
      by (simp add: parse_page_range_def)
  qed
  have split_no_sep: "split_on c xs = [xs]" if "c \<notin> set xs" for c xs
    using that by (induction xs) auto
  have split_one: "split_on c (xs @ c # ys) = [xs, ys]"
    if "c \<notin> set xs" and "c \<notin> set ys" for c xs ys
    using that split_no_sep [of c ys] by (induction xs) auto
  have skipped: "py_int a = Some start \<and> py_int b = Some end \<and> CHR ''-'' \<notin> set a \<and>
      CHR ''-'' \<notin> set b \<and> max 1 start > min total_pages end
      \<longrightarrow> term_parses (a @ ''-'' @ b) \<and> term_pages total_pages (a @ ''-'' @ b) = []"
  proof
    assume h: "py_int a = Some start \<and> py_int b = Some end \<and> CHR ''-'' \<notin> set a \<and>
      CHR ''-'' \<notin> set b \<and> max 1 start > min total_pages end"
    then have sp: "split_on CHR ''-'' (a @ ''-'' @ b) = [a, b]"
      using split_one [of "CHR ''-''" a b] by simp
    show "term_parses (a @ ''-'' @ b) \<and> term_pages total_pages (a @ ''-'' @ b) = []"
      using h sp by (simp add: term_parses_def term_pages_def)
  qed
  have e1: "\<not> term_parses ''abc''" by code_simp
  have e2: "parse_page_range ''abc'' 5 = []" by code_simp
  have e3: "term_parses ''2-1''" by code_simp
  have e4: "term_pages 5 ''2-1'' = []" by code_simp
  have e5: "parse_page_range ''2-1'' 5 = []" by code_simp
  have e6: "parse_page_range ''2-1,4'' 5 = [3]" by code_simp
  have e7: "parse_page_range ''1-3,5'' 5 = [0, 1, 2, 4]" by code_simp
  show ?thesis
    using invalid valid skipped e1 e2 e3 e4 e5 e6 e7 by blast
qed

theorem parse_page_range_invalid_term_vs_empty_range_witness:
  "parse_page_range ''1-2,x'' 5 = [] \<and>
   parse_page_range ''4-9,3-2, 2'' 5 = [1, 3, 4] \<and>
   term_parses ''3-2'' \<and> term_pages 5 ''3-2'' = [] \<and>
   py_strip [CHR 0x1C, CHR ''5''] = ''5'' \<and> py_int [CHR 0x1C, CHR ''5''] = None \<and>
   parse_page_range [CHR 0x1C, CHR ''5''] 5 = [] \<and>
   parse_page_range (replicate 4301 CHR ''1'') 5 = []"
proof -
  note t1 = parse_page_range_invalid_term_vs_empty_range
              [of "''1-2,x''" 5 "''3''" 3 "''2''" 2]
  note t2 = parse_page_range_invalid_term_vs_empty_range
              [of "''4-9,3-2, 2''" 5 "''3''" 3 "''2''" 2]
  note t3 = parse_page_range_invalid_term_vs_empty_range
              [of "[CHR 0x1C, CHR ''5'']" 5 "''3''" 3 "''2''" 2]
  note t4 = parse_page_range_invalid_term_vs_empty_range
              [of "replicate 4301 CHR ''1''" 5 "''3''" 3 "''2''" 2]
  have s1: "py_strip ''1-2,x'' \<noteq> []" by code_simp
  have p1: "\<exists>part \<in> set (split_on CHR '','' ''1-2,x''). \<not> term_parses part" by code_simp
  have s2: "py_strip ''4-9,3-2, 2'' \<noteq> []" by code_simp
  have p2: "\<forall>part \<in> set (split_on CHR '','' ''4-9,3-2, 2''). term_parses part" by code_simp
  have v2: "sort (remdups (concat (map (term_pages 5) (split_on CHR '','' ''4-9,3-2, 2''))))
              = [1, 3, 4]" by code_simp
  have i3: "py_int ''3'' = Some 3 \<and> py_int ''2'' = Some 2 \<and> CHR ''-'' \<notin> set ''3'' \<and>
            CHR ''-'' \<notin> set ''2'' \<and> max 1 (3::int) > min 5 2" by code_simp
  have s3: "py_strip [CHR 0x1C, CHR ''5''] = ''5''" by code_simp
  have n3: "py_int [CHR 0x1C, CHR ''5''] = None" by code_simp
  have p3: "\<exists>part \<in> set (split_on CHR '','' [CHR 0x1C, CHR ''5'']). \<not> term_parses part"
    by code_simp
  have s4: "py_strip (replicate 4301 CHR ''1'') \<noteq> []"
    by (simp add: py_strip_def py_isspace_def)
  have "\<not> term_parses (replicate 4301 CHR ''1'')"
    using py_int_digit_limit by (simp add: term_parses_def)
  then have p4: "\<exists>part \<in> set (split_on CHR '','' (replicate 4301 CHR ''1'')). \<not> term_parses part"
    by (simp add: split_on_no_sep)
  have "parse_page_range ''1-2,x'' 5 = []" using t1 s1 p1 by blast
  moreover have "parse_page_range ''4-9,3-2, 2'' 5 = [1, 3, 4]" using t2 s2 p2 v2 by simp
  moreover have "term_parses ''3-2'' \<and> term_pages 5 ''3-2'' = []" using t2 i3 by simp
  moreover have "parse_page_range [CHR 0x1C, CHR ''5''] 5 = []" using t3 s3 p3 by simp
  moreover have "parse_page_range (replicate 4301 CHR ''1'') 5 = []" using t4 s4 p4 by blast
  ultimately show ?thesis using s3 n3 by blast
qed

section \<open>Properties of the chunk splitter\<close>

lemma token_slices_Nil: "token_slices n [] = []"
  by (subst token_slices.simps) simp

lemma token_slices_step:
  "0 < n \<Longrightarrow> xs \<noteq> [] \<Longrightarrow> token_slices n xs = take n xs # token_slices n (drop n xs)"
  by (subst token_slices.simps) simp

lemma slice_loop_Nil: "slice_loop enc m [] out = Some out"
  by (subst slice_loop.simps) simp

lemma py_slice_to_min:
  "1 \<le> m \<Longrightarrow> py_slice_to (min (int (length xs)) m) xs = take (nat m) xs"
  by (auto simp: py_slice_to_def min_def)

lemma py_slice_from_min:
  "1 \<le> m \<Longrightarrow> py_slice_from (min (int (length xs)) m) xs = drop (nat m) xs"
  by (auto simp: py_slice_from_def min_def)

lemma slice_loop_slices:
  assumes "1 \<le> m"
  shows "slice_loop enc m tokens out = Some (out @ map (decode enc) (token_slices (nat m) tokens))"
proof (induction tokens arbitrary: out rule: length_induct)
  case (1 tokens)
  show ?case
  proof (cases "tokens = []")
    case True
    then show ?thesis
      by (simp add: slice_loop_Nil token_slices_Nil)
  next
    case False
    have shorter: "length (drop (nat m) tokens) < length tokens"
      using False assms by simp
    have step: "slice_loop enc m tokens out =
                  slice_loop enc m (drop (nat m) tokens) (out @ [decode enc (take (nat m) tokens)])"
      using False assms
      by (subst slice_loop.simps) (simp add: py_slice_to_min py_slice_from_min Let_def)
    have "slice_loop enc m (drop (nat m) tokens) (out @ [decode enc (take (nat m) tokens)]) =
            Some ((out @ [decode enc (take (nat m) tokens)]) @
                  map (decode enc) (token_slices (nat m) (drop (nat m) tokens)))"
      using "1.IH" shorter by blast
    moreover have "token_slices (nat m) tokens =
                     take (nat m) tokens # token_slices (nat m) (drop (nat m) tokens)"
      using False assms by (subst token_slices.simps) simp
    ultimately show ?thesis using step by simp
  qed
qed

lemma concat_token_slices: "0 < n \<Longrightarrow> concat (token_slices n xs) = xs"
proof (induction n xs rule: token_slices.induct)
  case (1 n xs)
  then show ?case by (subst token_slices.simps) auto
qed

lemma length_token_slices: "0 < n \<Longrightarrow> length (token_slices n xs) = (length xs + n - 1) div n"
proof (induction n xs rule: token_slices.induct)
  case (1 n xs)
  show ?case
  proof (cases "xs = []")
    case True
    then show ?thesis using "1.prems" by (subst token_slices.simps) simp
  next
    case False
    have ih: "length (token_slices n (drop n xs)) = (length (drop n xs) + n - 1) div n"
      using "1.IH" "1.prems" False by simp
    have ts: "token_slices n xs = take n xs # token_slices n (drop n xs)"
      using False "1.prems" by (subst token_slices.simps) simp
    show ?thesis
    proof (cases "length xs \<le> n")
      case True
      then have "(length xs + n - 1) div n = 1"
        using False "1.prems" by (cases xs) (auto simp: div_eq_dividend_iff Suc_le_eq div_nat_eqI)
      then show ?thesis using ts True by (simp add: token_slices_Nil)
    next
      case b: False
      then have "length xs + n - 1 = (length xs - n + n - 1) + n" by simp
      then have "(length xs + n - 1) div n = Suc ((length xs - n + n - 1) div n)"
        using "1.prems" by (metis div_add_self2 less_numeral_extra(3) Suc_eq_plus1)
      then show ?thesis using ts ih by simp
    qed
  qed
qed

lemma token_slices_full: "0 < n \<Longrightarrow> ts \<in> set (butlast (token_slices n xs)) \<Longrightarrow> length ts = n"
proof (induction n xs rule: token_slices.induct)
  case (1 n xs)
  show ?case
  proof (cases "xs = []")
    case True
    then show ?thesis using "1.prems" by (simp add: token_slices_Nil)
  next
    case False
    have ts: "token_slices n xs = take n xs # token_slices n (drop n xs)"
      using False "1.prems" by (subst token_slices.simps) simp
    show ?thesis
    proof (cases "token_slices n (drop n xs) = []")
      case True
      then show ?thesis using ts "1.prems" by simp
    next
      case ne: False
      then have "drop n xs \<noteq> []" by (auto simp: token_slices.simps [of n "drop n xs"])
      then have "length (take n xs) = n" by simp
      then show ?thesis using ts ne "1.prems" "1.IH" False by auto
    qed
  qed
qed

lemma token_slices_last:
  "0 < n \<Longrightarrow> xs \<noteq> [] \<Longrightarrow>
     token_slices n xs \<noteq> [] \<and> 1 \<le> length (last (token_slices n xs)) \<and> length (last (token_slices n xs)) \<le> n"
proof (induction n xs rule: token_slices.induct)
  case (1 n xs)
  have ts: "token_slices n xs = take n xs # token_slices n (drop n xs)"
    using "1.prems" by (subst token_slices.simps) simp
  show ?case
  proof (cases "drop n xs = []")
    case True
    then have "token_slices n (drop n xs) = []" by (simp add: token_slices.simps [of n "[]"])
    then show ?thesis using ts "1.prems" by (cases xs) auto
  next
    case False
    then show ?thesis using ts "1.prems" "1.IH" by auto
  qed
qed

lemma slice_loop_diverges_aux:
  assumes "slice_loop enc m tokens out = Some r"
  shows "\<not> (m \<le> 0 \<and> tokens \<noteq> [])"
proof (rule slice_loop.raw_induct
         [where P = "\<lambda>e m tokens out r. \<not> (m \<le> 0 \<and> tokens \<noteq> [])", OF _ assms])
  fix f :: "encoding \<Rightarrow> int \<Rightarrow> nat list \<Rightarrow> string list \<Rightarrow> string list option"
  fix enc m tokens out r
  assume IH: "\<And>e m' tokens' out' y. f e m' tokens' out' = Some y
                \<Longrightarrow> \<not> (m' \<le> 0 \<and> tokens' \<noteq> [])"
  assume body: "(if tokens = [] then Some out
      else let take_n = min (int (length tokens)) m;
               chunk_tokens = py_slice_to take_n tokens
           in f enc m (py_slice_from take_n tokens) (out @ [decode enc chunk_tokens])) = Some r"
  show "\<not> (m \<le> 0 \<and> tokens \<noteq> [])"
  proof
    assume h: "m \<le> 0 \<and> tokens \<noteq> []"
    define k where "k = min (int (length tokens)) m"
    have k: "k \<le> 0" using h by (simp add: k_def)
    have len: "0 < length tokens" using h by simp
    have ne: "py_slice_from k tokens \<noteq> []"
    proof (cases "k = 0")
      case True
      then show ?thesis using h by (simp add: py_slice_from_def)
    next
      case False
      then have "0 < nat (- k)" using k by simp
      then have "length tokens - nat (- k) < length tokens" using len by arith
      then show ?thesis using False k by (simp add: py_slice_from_def)
    qed
    from body h
    have "f enc m (py_slice_from k tokens) (out @ [decode enc (py_slice_to k tokens)]) = Some r"
      by (simp add: Let_def k_def)
    from IH [OF this] show False using h ne by simp
  qed
qed

lemma slice_loop_diverges:
  "m \<le> 0 \<Longrightarrow> tokens \<noteq> [] \<Longrightarrow> slice_loop enc m tokens out = None"
  using slice_loop_diverges_aux [of enc m tokens out] by (cases "slice_loop enc m tokens out") auto

lemma para_step_returns:
  assumes "1 \<le> m"
  shows "\<exists>st'. para_step enc m para st = Some st'"
  using assms by (simp add: para_step_def Let_def slice_loop_slices)

lemma para_loop_returns:
  assumes "1 \<le> m"
  shows "\<exists>st'. para_loop enc m paragraphs st = Some st'"
proof (induction paragraphs arbitrary: st)
  case Nil
  show ?case by simp
next
  case (Cons para paragraphs)
  obtain st1 where "para_step enc m para st = Some st1"
    using para_step_returns [OF assms] by blast
  then show ?case using Cons.IH [of st1] by simp
qed

lemma split_text_into_chunks_returns:
  assumes "1 \<le> m"
  shows "\<exists>cs. split_text_into_chunks text m enc = Some cs"
proof -
  obtain st where "para_loop enc m (split_on CHR 0x0A text)
      \<lparr>chunks = [], current_chunk = [], current_token_count = 0\<rparr> = Some st"
    using para_loop_returns [OF assms] by blast
  then show ?thesis by (simp add: split_text_into_chunks_def)
qed

lemma extract_returns:
  "\<exists>r. extract_data_with_openai srv text columns instructions multiple_rows = Some r"
proof (cases "py_strip text = []")
  case True
  then show ?thesis by (simp add: extract_data_with_openai_def)
next
  case False
  show ?thesis
  proof (cases "available_tokens srv columns instructions")
    case None
    with False show ?thesis by (simp add: extract_data_with_openai_def)
  next
    case (Some a)
    show ?thesis
    proof (cases "a \<le> 0")
      case True
      with False Some show ?thesis by (simp add: extract_data_with_openai_def)
    next
      case pos: False
      then have "1 \<le> a" by simp
      then obtain cs where "split_text_into_chunks text a (tokenizer srv) = Some cs"
        using split_text_into_chunks_returns by blast
      with False Some pos show ?thesis by (simp add: extract_data_with_openai_def)
    qed
  qed
qed

lemma split_single_oversize:
  assumes "1 \<le> m" and "CHR 0x0A \<notin> set text" and "int (length (encode enc text)) > m"
  shows "split_text_into_chunks text m enc =
           Some (map (decode enc) (token_slices (nat m) (encode enc text)))"
  using assms
  by (simp add: split_text_into_chunks_def split_on_no_sep para_step_def Let_def
                slice_loop_slices)

text \<open>
  Claim C9. For a budget of at least one token, a text that is a single paragraph (it
  has no line feed) with more tokens than the budget is returned as the decodings of
  consecutive slices of its token sequence, in order: their concatenation is the
  paragraph's token sequence, there are \<open>ceil(n / max_tokens)\<close> of them, every one
  but the last has exactly \<open>max_tokens\<close> tokens, and the last holds the remainder,
  between one and \<open>max_tokens\<close> tokens.
\<close>

theorem oversize_paragraph_sliced:
  assumes "1 \<le> max_tokens" and "CHR 0x0A \<notin> set text"
    and "int (length (encode enc text)) > max_tokens"
  shows "\<exists>tss. split_text_into_chunks text max_tokens enc = Some (map (decode enc) tss) \<and>
           concat tss = encode enc text \<and>
           length tss = (length (encode enc text) + nat max_tokens - 1) div nat max_tokens \<and>
           (\<forall>ts \<in> set (butlast tss). int (length ts) = max_tokens) \<and>
           1 \<le> length (last tss) \<and> int (length (last tss)) \<le> max_tokens"
proof -
  define n where "n = nat max_tokens"
  define tss where "tss = token_slices n (encode enc text)"
  have n: "0 < n" and mn: "int n = max_tokens" using assms(1) by (simp_all add: n_def)
  have ne: "encode enc text \<noteq> []" using assms(1,3) by auto
  have r: "split_text_into_chunks text max_tokens enc = Some (map (decode enc) tss)"
    using split_single_oversize [OF assms] by (simp add: tss_def n_def)
  have c: "concat tss = encode enc text"
    using concat_token_slices [OF n] by (simp add: tss_def)
  have l: "length tss = (length (encode enc text) + n - 1) div n"
    using length_token_slices [OF n] by (simp add: tss_def)
  have f: "\<forall>ts \<in> set (butlast tss). int (length ts) = max_tokens"
    using token_slices_full [OF n] mn by (auto simp: tss_def)
  have e: "1 \<le> length (last tss) \<and> int (length (last tss)) \<le> max_tokens"
    using token_slices_last [OF n ne] mn by (simp add: tss_def)
  show ?thesis
    using r c l f e unfolding n_def by blast
qed

theorem oversize_paragraph_sliced_witness:
  "split_text_into_chunks ''abcdefg'' 3 char_encoding = Some [''abc'', ''def'', ''g''] \<and>
   (\<exists>tss. split_text_into_chunks ''abcdefg'' 3 char_encoding
             = Some (map (decode char_encoding) tss) \<and>
          concat tss = encode char_encoding ''abcdefg'' \<and> length tss = 3)"
proof -
  have h1: "(1::int) \<le> 3" by simp
  have h2: "CHR 0x0A \<notin> set ''abcdefg''" by simp
  have h3: "int (length (encode char_encoding ''abcdefg'')) > 3"
    by (simp add: char_encoding_def)
  have v: "split_text_into_chunks ''abcdefg'' 3 char_encoding = Some [''abc'', ''def'', ''g'']"
    by code_simp
  have k: "(length (encode char_encoding ''abcdefg'') + nat 3 - 1) div nat 3 = 3"
    by (simp add: char_encoding_def)
  from oversize_paragraph_sliced [OF h1 h2 h3] obtain tss where
    t1: "split_text_into_chunks ''abcdefg'' 3 char_encoding = Some (map (decode char_encoding) tss)"
    and t2: "concat tss = encode char_encoding ''abcdefg''"
    and t3: "length tss = (length (encode char_encoding ''abcdefg'') + nat 3 - 1) div nat 3"
    by blast
  from t3 k have "length tss = 3" by (simp only:)
  with t1 t2 v show ?thesis by blast
qed

text \<open>
  Claim C10. For every text and every budget of at least one token the splitter
  returns, and so does its slicing loop, each iteration of which removes
  \<open>min(remaining, max_tokens)\<close> tokens, at least one. With a budget of zero or less
  the slicing loop does not return on a non-empty token sequence. The orchestrator
  returns on every input: it gives up before splitting when the budget is not
  positive, so it never runs the splitter outside the precondition.
\<close>

theorem split_text_into_chunks_terminates:
  "(1 \<le> max_tokens \<longrightarrow> (\<exists>cs. split_text_into_chunks text max_tokens enc = Some cs)) \<and>
   (1 \<le> max_tokens \<longrightarrow> (\<exists>out'. slice_loop enc max_tokens tokens out = Some out')) \<and>
   (1 \<le> max_tokens \<and> tokens \<noteq> [] \<longrightarrow>
      1 \<le> min (int (length tokens)) max_tokens \<and>
      int (length (py_slice_from (min (int (length tokens)) max_tokens) tokens))
        = int (length tokens) - min (int (length tokens)) max_tokens) \<and>
   (budget \<le> 0 \<and> tokens \<noteq> [] \<longrightarrow> slice_loop enc budget tokens out = None) \<and>
   (\<exists>r. extract_data_with_openai srv text columns instructions multiple_rows = Some r)"
proof -
  have a: "1 \<le> max_tokens \<longrightarrow> (\<exists>cs. split_text_into_chunks text max_tokens enc = Some cs)"
    using split_text_into_chunks_returns by blast
  have b: "1 \<le> max_tokens \<longrightarrow> (\<exists>out'. slice_loop enc max_tokens tokens out = Some out')"
    using slice_loop_slices by blast
  have c: "1 \<le> max_tokens \<and> tokens \<noteq> [] \<longrightarrow>
      1 \<le> min (int (length tokens)) max_tokens \<and>
      int (length (py_slice_from (min (int (length tokens)) max_tokens) tokens))
        = int (length tokens) - min (int (length tokens)) max_tokens"
  proof
    assume h: "1 \<le> max_tokens \<and> tokens \<noteq> []"
    then have len: "1 \<le> int (length tokens)" by (cases tokens) auto
    show "1 \<le> min (int (length tokens)) max_tokens \<and>
      int (length (py_slice_from (min (int (length tokens)) max_tokens) tokens))
        = int (length tokens) - min (int (length tokens)) max_tokens"
      using h len by (auto simp: py_slice_from_def min_def)
  qed
  have d: "budget \<le> 0 \<and> tokens \<noteq> [] \<longrightarrow> slice_loop enc budget tokens out = None"
    using slice_loop_diverges by blast
  have e: "\<exists>r. extract_data_with_openai srv text columns instructions multiple_rows = Some r"
    using extract_returns by blast
  show ?thesis using a b c d e by blast
qed

theorem split_text_into_chunks_terminates_witness:
  "(\<exists>cs. split_text_into_chunks ''ab'' 1 char_encoding = Some cs) \<and>
   split_text_into_chunks ''ab'' 1 char_encoding = Some [''a'', ''b''] \<and>
   (\<exists>out'. slice_loop char_encoding 1 [97, 98] [] = Some out') \<and>
   length (py_slice_from (min (int (length [97, 98 :: nat])) 1) [97, 98 :: nat]) = 1 \<and>
   slice_loop char_encoding 0 [97, 98] [] = None \<and>
   (\<exists>r. extract_data_with_openai test_services ''ab'' ''[]'' ''none'' True = Some r)"
proof -
  note t = split_text_into_chunks_terminates
             [of 1 "''ab''" char_encoding "[97, 98]" "[]" 0 test_services "''[]''" "''none''" True]
  have v: "split_text_into_chunks ''ab'' 1 char_encoding = Some [''a'', ''b'']" by code_simp
  have "length (py_slice_from (min (int (length [97, 98 :: nat])) 1) [97, 98 :: nat]) = 1"
    using t by simp
  then show ?thesis using t v by simp
qed

text \<open>
  Claim C1 states that no emitted chunk has more tokens than the budget. The
  paragraph \<open>a\<close> has one token and fits a budget of one; the branch that appends
  it also appends the separator's token without counting it against the budget, and
  the final flush emits the two-token chunk.
\<close>

theorem split_text_into_chunks_exceeds_budget:
  "split_text_into_chunks ''a'' 1 char_encoding = Some [[CHR ''a'', CHR 0x0A]] \<and>
   encode char_encoding ''a'' = [97] \<and>
   encode char_encoding [CHR 0x0A] = [10] \<and>
   length (encode char_encoding [CHR ''a'', CHR 0x0A]) = 2"
  by code_simp

text \<open>
  How far a chunk can exceed the budget: with a one-token separator, every chunk is
  the decoding of at most \<open>max_tokens + 1\<close> tokens.
\<close>

lemma chunks_within_Nil: "chunks_within enc b []"
  by (simp add: chunks_within_def)

lemma chunks_within_append:
  assumes "chunks_within enc b cs" and "chunks_within enc b ds"
  shows "chunks_within enc b (cs @ ds)"
proof -
  from assms obtain tss uss where
    "cs = map (decode enc) tss" "\<forall>ts \<in> set tss. int (length ts) \<le> b"
    "ds = map (decode enc) uss" "\<forall>ts \<in> set uss. int (length ts) \<le> b"
    unfolding chunks_within_def by blast
  then have "cs @ ds = map (decode enc) (tss @ uss) \<and>
             (\<forall>ts \<in> set (tss @ uss). int (length ts) \<le> b)"
    by auto
  then show ?thesis unfolding chunks_within_def by blast
qed

lemma chunks_within_single: "int (length ts) \<le> b \<Longrightarrow> chunks_within enc b [decode enc ts]"
  unfolding chunks_within_def by (rule exI [of _ "[ts]"]) simp

lemma token_slices_le: "ts \<in> set (token_slices n xs) \<Longrightarrow> length ts \<le> n"
proof (induction n xs rule: token_slices.induct)
  case (1 n xs)
  show ?case
  proof (cases "n = 0 \<or> xs = []")
    case True
    with "1.prems" show ?thesis by (simp add: token_slices.simps [of n xs])
  next
    case False
    then have "token_slices n xs = take n xs # token_slices n (drop n xs)"
      by (simp add: token_slices_step)
    with "1.prems" "1.IH" False show ?thesis by auto
  qed
qed

lemma chunks_within_slices:
  assumes "1 \<le> m"
  shows "chunks_within enc (m + 1) (map (decode enc) (token_slices (nat m) toks))"
proof -
  have "\<forall>ts \<in> set (token_slices (nat m) toks). int (length ts) \<le> m + 1"
    using token_slices_le [of _ "nat m" toks] assms by fastforce
  then show ?thesis unfolding chunks_within_def by blast
qed

lemma para_step_budget:
  assumes m: "1 \<le> m" and nl: "length (encode enc [CHR 0x0A]) = 1"
    and inv: "budget_inv enc m st" and step: "para_step enc m para st = Some st'"
  shows "budget_inv enc m st'"
proof -
  define toks where "toks = encode enc para"
  define n where "n = int (length toks)"
  from inv have w: "chunks_within enc (m + 1) (chunks st)"
    and l: "int (length (current_chunk st)) = current_token_count st"
    and b: "current_token_count st \<le> m + 1"
    by (simp_all add: budget_inv_def)
  show ?thesis
  proof (cases "current_token_count st + n > m")
    case False
    then have "st' = st\<lparr>current_chunk := current_chunk st @ toks @ encode enc [CHR 0x0A],
                         current_token_count := current_token_count st + n + 1\<rparr>"
      using step by (simp add: para_step_def toks_def n_def Let_def)
    then show ?thesis using w l False nl by (simp add: budget_inv_def n_def)
  next
    case True
    define st1 where "st1 =
      (if current_chunk st \<noteq> [] then
         st\<lparr>chunks := chunks st @ [decode enc (current_chunk st)],
            current_chunk := [], current_token_count := 0\<rparr>
       else st)"
    have w1: "chunks_within enc (m + 1) (chunks st1)"
      using w l b chunks_within_append [OF w chunks_within_single [of "current_chunk st" "m + 1" enc]]
      by (simp add: st1_def)
    have e1: "current_chunk st1 = []" by (simp add: st1_def)
    have c1: "current_token_count st1 = 0" using l by (auto simp: st1_def)
    show ?thesis
    proof (cases "n > m")
      case big: True
      have "slice_loop enc m toks (chunks st1) =
              Some (chunks st1 @ map (decode enc) (token_slices (nat m) toks))"
        by (rule slice_loop_slices [OF m])
      then have "st' = st1\<lparr>chunks := chunks st1 @ map (decode enc) (token_slices (nat m) toks)\<rparr>"
        using step True big
        by (simp add: para_step_def toks_def [symmetric] n_def [symmetric] Let_def
                      st1_def [symmetric])
      then show ?thesis
        using chunks_within_append [OF w1 chunks_within_slices [OF m, of enc toks]] e1 c1 m
        by (simp add: budget_inv_def)
    next
      case small: False
      then have "st' = st1\<lparr>current_chunk := toks, current_token_count := n\<rparr>"
        using step True
        by (simp add: para_step_def toks_def [symmetric] n_def [symmetric] Let_def
                      st1_def [symmetric])
      then show ?thesis using w1 small by (simp add: budget_inv_def n_def)
    qed
  qed
qed

lemma para_loop_budget:
  assumes "1 \<le> m" and "length (encode enc [CHR 0x0A]) = 1"
    and "budget_inv enc m st" and "para_loop enc m paragraphs st = Some st'"
  shows "budget_inv enc m st'"
  using assms(3,4)
proof (induction paragraphs arbitrary: st)
  case Nil
  then show ?case by simp
next
  case (Cons para paragraphs)
  from Cons.prems(2) obtain st1 where
    s: "para_step enc m para st = Some st1" and r: "para_loop enc m paragraphs st1 = Some st'"
    by (auto split: option.splits)
  from Cons.IH [OF para_step_budget [OF assms(1,2) Cons.prems(1) s] r] show ?case .
qed

lemma chunks_within_budget_plus_one:
  assumes "1 \<le> max_tokens" and "length (encode enc [CHR 0x0A]) = 1"
    and "split_text_into_chunks text max_tokens enc = Some cs"
  shows "\<exists>tss. cs = map (decode enc) tss \<and>
           (\<forall>ts \<in> set tss. int (length ts) \<le> max_tokens + 1)"
proof -
  from assms(3) obtain st where
    l: "para_loop enc max_tokens (split_on CHR 0x0A text)
          \<lparr>chunks = [], current_chunk = [], current_token_count = 0\<rparr> = Some st"
    and c: "cs = (if current_chunk st \<noteq> [] then chunks st @ [decode enc (current_chunk st)]
                 else chunks st)"
    by (auto simp: split_text_into_chunks_def split: option.splits)
  have "budget_inv enc max_tokens \<lparr>chunks = [], current_chunk = [], current_token_count = 0\<rparr>"
    using assms(1) by (simp add: budget_inv_def chunks_within_Nil)
  from para_loop_budget [OF assms(1,2) this l]
  have w: "chunks_within enc (max_tokens + 1) (chunks st)"
    and b: "int (length (current_chunk st)) \<le> max_tokens + 1"
    by (simp_all add: budget_inv_def)
  have "chunks_within enc (max_tokens + 1) cs"
    using c w chunks_within_append [OF w chunks_within_single [OF b]] by simp
  then show ?thesis by (simp add: chunks_within_def)
qed

section \<open>Properties of the orchestrator\<close>

lemma chunk_loop_accumulates:
  "chunk_loop srv tmpl i text_chunks (reports, all_data) =
     (reports @ concat (per_chunk_failures srv tmpl i text_chunks),
      all_data @ concat (per_chunk_records srv tmpl i text_chunks))"
proof (induction text_chunks arbitrary: i reports all_data)
  case Nil
  show ?case by (simp add: per_chunk_failures_def per_chunk_records_def)
next
  case (Cons chunk rest)
  show ?case
  proof (cases "process_chunk srv tmpl i chunk")
    case (Inl e)
    then show ?thesis
      using Cons.IH [of "Suc i" "reports @ [Error_processing_chunk e]" all_data]
      by (simp add: per_chunk_failures_def per_chunk_records_def chunk_failure_def
                    chunk_records_def)
  next
    case (Inr data)
    then show ?thesis
      using Cons.IH [of "Suc i" reports "all_data @ data"]
      by (simp add: per_chunk_failures_def per_chunk_records_def chunk_failure_def
                    chunk_records_def)
  qed
qed

lemma extract_from_chunks_all:
  "extract_from_chunks srv tmpl text_chunks True =
     (concat (per_chunk_failures srv tmpl 0 text_chunks),
      concat (per_chunk_records srv tmpl 0 text_chunks))"
  using chunk_loop_accumulates [of srv tmpl 0 text_chunks "[]" "[]"]
  by (simp add: extract_from_chunks_def per_chunk_failures_def per_chunk_records_def)

lemma extract_from_chunks_first:
  "snd (extract_from_chunks srv tmpl text_chunks False) =
     take 1 (concat (per_chunk_records srv tmpl 0 text_chunks))"
proof (cases "text_chunks = []")
  case True
  then show ?thesis by (simp add: extract_from_chunks_def per_chunk_records_def)
next
  case False
  define rs where "rs = concat (per_chunk_records srv tmpl 0 text_chunks)"
  define fs where "fs = concat (per_chunk_failures srv tmpl 0 text_chunks)"
  have l: "chunk_loop srv tmpl 0 text_chunks ([], []) = (fs, rs)"
    using chunk_loop_accumulates [of srv tmpl 0 text_chunks "[]" "[]"]
    by (simp add: rs_def fs_def)
  have "snd (extract_from_chunks srv tmpl text_chunks False) = take 1 rs"
    using False l by (cases rs) (simp_all add: extract_from_chunks_def)
  then show ?thesis by (simp add: rs_def)
qed

lemma take1_concat:
  "take 1 (concat xss) = (case find (\<lambda>d. d \<noteq> []) xss of None \<Rightarrow> [] | Some d \<Rightarrow> [hd d])"
proof (induction xss)
  case Nil
  show ?case by simp
next
  case (Cons xs xss)
  then show ?case by (cases xs) auto
qed

lemma per_chunk_records_nth:
  "k < length text_chunks \<Longrightarrow>
     per_chunk_records srv tmpl i text_chunks ! k = chunk_records srv tmpl (i + k) (text_chunks ! k)"
  by (simp add: per_chunk_records_def nth_enumerate_eq)

lemma per_chunk_failures_nth:
  "k < length text_chunks \<Longrightarrow>
     per_chunk_failures srv tmpl i text_chunks ! k = chunk_failure srv tmpl (i + k) (text_chunks ! k)"
  by (simp add: per_chunk_failures_def nth_enumerate_eq)

lemma extract_pipeline:
  assumes "py_strip text \<noteq> []" and "available_tokens srv columns instructions = Some a"
    and "0 < a"
  shows "extract_data_with_openai srv text columns instructions multiple_rows =
           map_option (\<lambda>text_chunks. extract_from_chunks srv
                          (generate_prompt columns instructions) text_chunks multiple_rows)
             (split_text_into_chunks text a (tokenizer srv))"
  using assms by (simp add: extract_data_with_openai_def split: option.splits)

lemma extract_single_row_length:
  assumes "extract_data_with_openai srv text columns instructions False = Some (reports, records)"
  shows "length records \<le> 1"
proof -
  have fc: "length (snd (extract_from_chunks srv tmpl cs False)) \<le> 1" for tmpl cs
    by (simp add: extract_from_chunks_first)
  show ?thesis
  proof (cases "py_strip text = []")
    case True
    with assms show ?thesis by (simp add: extract_data_with_openai_def)
  next
    case False
    show ?thesis
    proof (cases "available_tokens srv columns instructions")
      case None
      with False assms show ?thesis by (auto simp: extract_data_with_openai_def)
    next
      case (Some a)
      show ?thesis
      proof (cases "a \<le> 0")
        case True
        with False Some assms show ?thesis by (auto simp: extract_data_with_openai_def)
      next
        case pos: False
        then have "0 < a" by simp
        from extract_pipeline [OF False Some this, of False] assms
        obtain cs where
          "(reports, records) = extract_from_chunks srv (generate_prompt columns instructions) cs False"
          by (auto simp: map_option_case split: option.splits)
        then have "records = snd (extract_from_chunks srv (generate_prompt columns instructions) cs False)"
          by (metis snd_conv)
        then show ?thesis using fc by simp
      qed
    qed
  qed
qed

text \<open>
  Claim C4. With \<open>multiple_rows\<close> false the orchestrator returns at most one record:
  the first parsed object of the first chunk that produced any, whatever the
  completion service answered for the chunks and however many objects the chunks
  produced; no record when no chunk produced one.
\<close>

theorem single_row_first_record:
  "length (snd (extract_from_chunks srv tmpl text_chunks False)) \<le> 1 \<and>
   snd (extract_from_chunks srv tmpl text_chunks False) =
     (case find (\<lambda>d. d \<noteq> []) (per_chunk_records srv tmpl 0 text_chunks) of
        None \<Rightarrow> []
      | Some d \<Rightarrow> [hd d]) \<and>
   (extract_data_with_openai srv text columns instructions False = Some (reports, records)
      \<longrightarrow> length records \<le> 1) \<and>
   (py_strip text \<noteq> [] \<and> available_tokens srv columns instructions = Some a \<and> 0 < a \<and>
    split_text_into_chunks text a (tokenizer srv) = Some cs
      \<longrightarrow> map_option snd (extract_data_with_openai srv text columns instructions False) =
            Some (case find (\<lambda>d. d \<noteq> [])
                         (per_chunk_records srv (generate_prompt columns instructions) 0 cs) of
                    None \<Rightarrow> []
                  | Some d \<Rightarrow> [hd d]))"
proof -
  have c1: "length (snd (extract_from_chunks srv tmpl text_chunks False)) \<le> 1"
    by (simp add: extract_from_chunks_first)
  have c2: "snd (extract_from_chunks srv t c False) =
     (case find (\<lambda>d. d \<noteq> []) (per_chunk_records srv t 0 c) of
        None \<Rightarrow> []
      | Some d \<Rightarrow> [hd d])" for t c
    by (simp only: extract_from_chunks_first take1_concat)
  have c3: "extract_data_with_openai srv text columns instructions False = Some (reports, records)
      \<longrightarrow> length records \<le> 1"
    using extract_single_row_length by blast
  have c4: "py_strip text \<noteq> [] \<and> available_tokens srv columns instructions = Some a \<and> 0 < a \<and>
    split_text_into_chunks text a (tokenizer srv) = Some cs
      \<longrightarrow> map_option snd (extract_data_with_openai srv text columns instructions False) =
            Some (case find (\<lambda>d. d \<noteq> [])
                         (per_chunk_records srv (generate_prompt columns instructions) 0 cs) of
                    None \<Rightarrow> []
                  | Some d \<Rightarrow> [hd d])"
  proof
    assume h: "py_strip text \<noteq> [] \<and> available_tokens srv columns instructions = Some a \<and> 0 < a \<and>
      split_text_into_chunks text a (tokenizer srv) = Some cs"
    then have "extract_data_with_openai srv text columns instructions False =
        Some (extract_from_chunks srv (generate_prompt columns instructions) cs False)"
      using extract_pipeline [of "text" srv columns instructions a False] by simp
    then show "map_option snd (extract_data_with_openai srv text columns instructions False) =
            Some (case find (\<lambda>d. d \<noteq> [])
                         (per_chunk_records srv (generate_prompt columns instructions) 0 cs) of
                    None \<Rightarrow> []
                  | Some d \<Rightarrow> [hd d])"
      using c2 [of "generate_prompt columns instructions" cs] by simp
  qed
  show ?thesis using c1 c2 [of tmpl text_chunks] c3 c4 by blast
qed

lemma test_parse_response:
  "parse_response (json_loads test_services)
     (''Here is the data: '' @ test_object @ '' and more text'') = [[(''a'', 1)]]"
  by code_simp

lemma test_process_chunk:
  "process_chunk test_services tmpl i chunk =
     (if i = 1 then Inl RateLimitError else Inr [[(''a'', 1)]])"
  using test_parse_response
  by (simp add: process_chunk_def test_services_def)

lemma test_chunk_records:
  "chunk_records test_services tmpl i chunk = (if i = 1 then [] else [[(''a'', 1)]])"
  by (simp add: chunk_records_def test_process_chunk)

lemma test_chunk_failure:
  "chunk_failure test_services tmpl i chunk =
     (if i = 1 then [Error_processing_chunk RateLimitError] else [])"
  by (simp add: chunk_failure_def test_process_chunk)

lemma test_available: "available_tokens test_services ''[]'' ''none'' = Some 125651"
  by code_simp

lemma test_split:
  "py_strip ''ab'' \<noteq> [] \<and>
   split_text_into_chunks ''ab'' 125651 (tokenizer test_services)
     = Some [[CHR ''a'', CHR ''b'', CHR 0x0A]]"
  by code_simp

theorem single_row_first_record_witness:
  "snd (extract_from_chunks test_services ''{text}'' [''c0'', ''c1'', ''c2''] False)
     = [[(''a'', 1)]] \<and>
   per_chunk_records test_services ''{text}'' 0 [''c0'', ''c1'', ''c2'']
     = [[[(''a'', 1)]], [], [[(''a'', 1)]]] \<and>
   map_option snd (extract_data_with_openai test_services ''ab'' ''[]'' ''none'' False)
     = Some [[(''a'', 1)]]"
proof -
  note t = single_row_first_record
      [of test_services "''{text}''" "[''c0'', ''c1'', ''c2'']"
          "''ab''" "''[]''" "''none''" "[]" "[]" 125651 "[[CHR ''a'', CHR ''b'', CHR 0x0A]]"]
  have r: "per_chunk_records test_services ''{text}'' 0 [''c0'', ''c1'', ''c2'']
             = [[[(''a'', 1)]], [], [[(''a'', 1)]]]"
    by (simp add: per_chunk_records_def test_chunk_records)
  have q: "per_chunk_records test_services (generate_prompt ''[]'' ''none'') 0
              [[CHR ''a'', CHR ''b'', CHR 0x0A]] = [[[(''a'', 1)]]]"
    by (simp add: per_chunk_records_def test_chunk_records)
  have "snd (extract_from_chunks test_services ''{text}'' [''c0'', ''c1'', ''c2''] False)
          = [[(''a'', 1)]]"
    using t r by simp
  moreover have "map_option snd (extract_data_with_openai test_services ''ab'' ''[]'' ''none'' False)
     = Some [[(''a'', 1)]]"
    using t test_available test_split q by simp
  ultimately show ?thesis using r by blast
qed

text \<open>
  Claim C6. A chunk whose completion call fails contributes no record and one
  report, and the loop goes on: the accumulated list is the concatenation, in chunk
  order, of what every chunk contributes, so the records of the chunks before and
  after a failing one are all there, and the extraction call returns them.
\<close>

theorem failed_chunk_is_skipped:
  "chunk_loop srv tmpl 0 text_chunks ([], []) =
     (concat (per_chunk_failures srv tmpl 0 text_chunks),
      concat (per_chunk_records srv tmpl 0 text_chunks)) \<and>
   (k < length text_chunks \<and> format_text srv tmpl (text_chunks ! k) = Some prompt \<and>
    create_completion srv k prompt = Inl e
      \<longrightarrow> per_chunk_records srv tmpl 0 text_chunks ! k = [] \<and>
          per_chunk_failures srv tmpl 0 text_chunks ! k = [Error_processing_chunk e]) \<and>
   (k < length text_chunks \<and> format_text srv tmpl (text_chunks ! k) = Some prompt \<and>
    create_completion srv k prompt = Inr json_str
      \<longrightarrow> per_chunk_records srv tmpl 0 text_chunks ! k = parse_response (json_loads srv) json_str \<and>
          per_chunk_failures srv tmpl 0 text_chunks ! k = []) \<and>
   extract_from_chunks srv tmpl text_chunks True =
     (concat (per_chunk_failures srv tmpl 0 text_chunks),
      concat (per_chunk_records srv tmpl 0 text_chunks)) \<and>
   (py_strip text \<noteq> [] \<and> available_tokens srv columns instructions = Some a \<and> 0 < a \<and>
    split_text_into_chunks text a (tokenizer srv) = Some cs
      \<longrightarrow> extract_data_with_openai srv text columns instructions True =
            Some (concat (per_chunk_failures srv (generate_prompt columns instructions) 0 cs),
                  concat (per_chunk_records srv (generate_prompt columns instructions) 0 cs)))"
proof -
  have c1: "chunk_loop srv tmpl 0 text_chunks ([], []) =
     (concat (per_chunk_failures srv tmpl 0 text_chunks),
      concat (per_chunk_records srv tmpl 0 text_chunks))"
    using chunk_loop_accumulates [of srv tmpl 0 text_chunks "[]" "[]"] by simp
  have c2: "k < length text_chunks \<and> format_text srv tmpl (text_chunks ! k) = Some prompt \<and>
    create_completion srv k prompt = Inl e
      \<longrightarrow> per_chunk_records srv tmpl 0 text_chunks ! k = [] \<and>
          per_chunk_failures srv tmpl 0 text_chunks ! k = [Error_processing_chunk e]"
    by (simp add: per_chunk_records_nth per_chunk_failures_nth chunk_records_def
                  chunk_failure_def process_chunk_def)
  have c3: "k < length text_chunks \<and> format_text srv tmpl (text_chunks ! k) = Some prompt \<and>
    create_completion srv k prompt = Inr json_str
      \<longrightarrow> per_chunk_records srv tmpl 0 text_chunks ! k = parse_response (json_loads srv) json_str \<and>
          per_chunk_failures srv tmpl 0 text_chunks ! k = []"
    by (simp add: per_chunk_records_nth per_chunk_failures_nth chunk_records_def
                  chunk_failure_def process_chunk_def)
  have c4: "extract_from_chunks srv tmpl text_chunks True =
     (concat (per_chunk_failures srv tmpl 0 text_chunks),
      concat (per_chunk_records srv tmpl 0 text_chunks))"
    by (rule extract_from_chunks_all)
  have c5: "py_strip text \<noteq> [] \<and> available_tokens srv columns instructions = Some a \<and> 0 < a \<and>
    split_text_into_chunks text a (tokenizer srv) = Some cs
      \<longrightarrow> extract_data_with_openai srv text columns instructions True =
            Some (concat (per_chunk_failures srv (generate_prompt columns instructions) 0 cs),
                  concat (per_chunk_records srv (generate_prompt columns instructions) 0 cs))"
    using extract_pipeline [of "text" srv columns instructions a True]
    by (simp add: extract_from_chunks_all)
  show ?thesis using c1 c2 c3 c4 c5 by blast
qed

theorem failed_chunk_is_skipped_witness:
  "chunk_loop test_services ''{text}'' 0 [''c0'', ''c1'', ''c2''] ([], []) =
     ([Error_processing_chunk RateLimitError], [[(''a'', 1)], [(''a'', 1)]]) \<and>
   per_chunk_records test_services ''{text}'' 0 [''c0'', ''c1'', ''c2'']
     = [[[(''a'', 1)]], [], [[(''a'', 1)]]] \<and>
   per_chunk_failures test_services ''{text}'' 0 [''c0'', ''c1'', ''c2'']
     = [[], [Error_processing_chunk RateLimitError], []] \<and>
   extract_data_with_openai test_services ''ab'' ''[]'' ''none'' True = Some ([], [[(''a'', 1)]])"
proof -
  note t = failed_chunk_is_skipped
      [of test_services "''{text}''" "[''c0'', ''c1'', ''c2'']" 1 "''c1''" RateLimitError
          "[]" "''ab''" "''[]''" "''none''" 125651 "[[CHR ''a'', CHR ''b'', CHR 0x0A]]"]
  have r: "per_chunk_records test_services ''{text}'' 0 [''c0'', ''c1'', ''c2'']
             = [[[(''a'', 1)]], [], [[(''a'', 1)]]]"
    by (simp add: per_chunk_records_def test_chunk_records)
  have f: "per_chunk_failures test_services ''{text}'' 0 [''c0'', ''c1'', ''c2'']
             = [[], [Error_processing_chunk RateLimitError], []]"
    by (simp add: per_chunk_failures_def test_chunk_failure)
  have h: "(1::nat) < length [''c0'', ''c1'', ''c2''] \<and>
           format_text test_services ''{text}'' ([''c0'', ''c1'', ''c2''] ! 1) = Some ''c1'' \<and>
           create_completion test_services 1 ''c1'' = Inl RateLimitError"
    by (simp add: test_services_def)
  have q: "per_chunk_records test_services (generate_prompt ''[]'' ''none'') 0
              [[CHR ''a'', CHR ''b'', CHR 0x0A]] = [[[(''a'', 1)]]]"
    by (simp add: per_chunk_records_def test_chunk_records)
  have q': "per_chunk_failures test_services (generate_prompt ''[]'' ''none'') 0
              [[CHR ''a'', CHR ''b'', CHR 0x0A]] = [[]]"
    by (simp add: per_chunk_failures_def test_chunk_failure)
  have "chunk_loop test_services ''{text}'' 0 [''c0'', ''c1'', ''c2''] ([], []) =
     ([Error_processing_chunk RateLimitError], [[(''a'', 1)], [(''a'', 1)]])"
    using t r f by simp
  moreover have "per_chunk_failures test_services ''{text}'' 0 [''c0'', ''c1'', ''c2''] ! 1
     = [Error_processing_chunk RateLimitError]"
    using t h by blast
  moreover have "extract_data_with_openai test_services ''ab'' ''[]'' ''none'' True
     = Some ([], [[(''a'', 1)]])"
    using t test_available test_split q q' by simp
  ultimately show ?thesis using r f by blast
qed

lemma split_text_empty:
  assumes "0 \<le> m" and "encode enc [] = []"
  shows "split_text_into_chunks [] m enc =
           Some (if encode enc [CHR 0x0A] = [] then []
                 else [decode enc (encode enc [CHR 0x0A])])"
  using assms by (simp add: split_text_into_chunks_def para_step_def)

text \<open>
  Claim C2 states that the splitter yields no chunk on an empty or whitespace-only
  text. On the empty text the only paragraph is empty, it fits the budget, and the
  branch that appends it appends the separator's token: the final flush emits one
  chunk. Whitespace-only paragraphs are emitted likewise.
\<close>

theorem empty_text_yields_separator_chunk:
  "py_strip [] = [] \<and>
   split_text_into_chunks [] 1 char_encoding = Some [[CHR 0x0A]] \<and>
   split_text_into_chunks [] 1 char_encoding \<noteq> Some [] \<and>
   split_text_into_chunks [CHR 0x20, CHR 0x0A, CHR 0x0A] 2 char_encoding
     = Some [[CHR 0x20, CHR 0x0A, CHR 0x0A]]"
  by code_simp

text \<open>
  Claim C2, as amended. On every text that is empty or whitespace-only the
  orchestrator returns the empty record list and reports no error (its guard on the
  stripped text returns before the budget is computed and before the splitter
  runs); and given no chunks, the orchestrator's stage after the splitter returns
  the empty record list and reports no error.
\<close>

theorem blank_text_nothing_to_extract:
  "(py_strip text = []
      \<longrightarrow> extract_data_with_openai srv text columns instructions multiple_rows = Some ([], [])) \<and>
   extract_from_chunks srv tmpl [] multiple_rows = ([], [])"
  by (simp add: extract_data_with_openai_def extract_from_chunks_def)

theorem blank_text_nothing_to_extract_witness:
  "py_strip [CHR 0x20, CHR 0x0A, CHR 0x09, CHR 0x0A] = [] \<and>
   extract_data_with_openai test_services [CHR 0x20, CHR 0x0A, CHR 0x09, CHR 0x0A]
     ''[]'' ''none'' True = Some ([], []) \<and>
   extract_from_chunks test_services ''{text}'' [] True = ([], [])"
proof -
  have b: "py_strip [CHR 0x20, CHR 0x0A, CHR 0x09, CHR 0x0A] = []" by code_simp
  note t = blank_text_nothing_to_extract
      [of "[CHR 0x20, CHR 0x0A, CHR 0x09, CHR 0x0A]" test_services "''[]''" "''none''" True
          "''{text}''"]
  show ?thesis using b t by blast
qed

text \<open>
  Claim C3. The budget is the model's 128000 tokens minus the token count of the
  prompt rendered with the empty text minus the 2000 reserved tokens, counted with
  the tokenizer that the splitter is given. The budget is computed once the text is
  known not to be blank and the static prompt has rendered; whenever it is then zero
  or less, the call reports that the prompt is too long and returns no record,
  whatever the text, also where the splitter would not return on such a budget: the
  splitter is not run. Whenever the budget is positive, the splitter runs with it.
\<close>

theorem prompt_budget:
  "available_tokens srv columns instructions =
     map_option
       (\<lambda>static_prompt. 128000 - int (length (encode (tokenizer srv) static_prompt)) - 2000)
       (format_text srv (generate_prompt columns instructions) []) \<and>
   (py_strip text \<noteq> [] \<and> available_tokens srv columns instructions = Some a \<and> a \<le> 0
      \<longrightarrow> extract_data_with_openai srv text columns instructions multiple_rows
            = Some ([Prompt_too_long], [])) \<and>
   (py_strip text \<noteq> [] \<and> available_tokens srv columns instructions = Some a \<and> 0 < a
      \<longrightarrow> extract_data_with_openai srv text columns instructions multiple_rows =
            map_option (\<lambda>text_chunks. extract_from_chunks srv
                           (generate_prompt columns instructions) text_chunks multiple_rows)
              (split_text_into_chunks text a (tokenizer srv)))"
proof -
  have c1: "available_tokens srv columns instructions =
     map_option
       (\<lambda>static_prompt. 128000 - int (length (encode (tokenizer srv) static_prompt)) - 2000)
       (format_text srv (generate_prompt columns instructions) [])"
    by (simp add: available_tokens_def model_max_tokens_def reserved_response_tokens_def
             split: option.splits)
  have c2: "py_strip text \<noteq> [] \<and> available_tokens srv columns instructions = Some a \<and> a \<le> 0
      \<longrightarrow> extract_data_with_openai srv text columns instructions multiple_rows
            = Some ([Prompt_too_long], [])"
    by (simp add: extract_data_with_openai_def)
  have c3: "py_strip text \<noteq> [] \<and> available_tokens srv columns instructions = Some a \<and> 0 < a
      \<longrightarrow> extract_data_with_openai srv text columns instructions multiple_rows =
            map_option (\<lambda>text_chunks. extract_from_chunks srv
                           (generate_prompt columns instructions) text_chunks multiple_rows)
              (split_text_into_chunks text a (tokenizer srv))"
    using extract_pipeline [of "text" srv columns instructions a multiple_rows] by blast
  show ?thesis using c1 c2 c3 by blast
qed

lemma subst_text_plain: "CHR 0x7B \<notin> set a \<Longrightarrow> subst_text (a @ b) t = a @ subst_text b t"
  by (induction a) auto

lemma long_instructions_budget:
  "\<exists>a. available_tokens test_services ''[]'' (replicate 126000 CHR ''x'') = Some a \<and> a \<le> 0"
proof -
  define instr where "instr = replicate 126000 CHR ''x''"
  define pre where "pre = [CHR 0x0A] @
     ''    Extract structured data from the following text. Follow these requirements:'' @
     [CHR 0x0A] @
     ''    1. Output only JSON format with a list of objects'' @ [CHR 0x0A] @
     ''    2. Use exactly these column names: '' @ ''[]'' @ [CHR 0x0A] @
     ''    3. ''"
  obtain post where g: "generate_prompt ''[]'' instr = pre @ instr @ post"
    by (simp add: generate_prompt_def pre_def)
  have p: "CHR 0x7B \<notin> set pre" by (simp add: pre_def)
  have i: "CHR 0x7B \<notin> set instr" by (simp add: instr_def)
  have "subst_text (generate_prompt ''[]'' instr) [] = pre @ instr @ subst_text post []"
    using g subst_text_plain [OF p] subst_text_plain [OF i] by simp
  then have "126000 \<le> length (subst_text (generate_prompt ''[]'' instr) [])"
    by (simp add: instr_def)
  then have "128000 - int (length (encode (tokenizer test_services)
                 (subst_text (generate_prompt ''[]'' instr) []))) - 2000 \<le> 0"
    by (simp add: test_services_def char_encoding_def)
  then show ?thesis
    by (simp add: available_tokens_def test_services_def model_max_tokens_def
                  reserved_response_tokens_def instr_def)
qed

theorem prompt_budget_witness:
  "extract_data_with_openai test_services ''ab'' ''[]'' (replicate 126000 CHR ''x'') True
     = Some ([Prompt_too_long], []) \<and>
   available_tokens test_services ''[]'' ''none'' = Some 125651 \<and>
   extract_data_with_openai test_services ''ab'' ''[]'' ''none'' True
     = Some (extract_from_chunks test_services (generate_prompt ''[]'' ''none'')
               [[CHR ''a'', CHR ''b'', CHR 0x0A]] True)"
proof -
  obtain a where a: "available_tokens test_services ''[]'' (replicate 126000 CHR ''x'') = Some a"
    and le: "a \<le> 0"
    using long_instructions_budget by blast
  note t1 = prompt_budget
      [of test_services "''[]''" "replicate 126000 CHR ''x''" "''ab''" a True]
  note t2 = prompt_budget [of test_services "''[]''" "''none''" "''ab''" 125651 True]
  have "extract_data_with_openai test_services ''ab'' ''[]'' (replicate 126000 CHR ''x'') True
     = Some ([Prompt_too_long], [])"
    using t1 a le test_split by blast
  moreover have "extract_data_with_openai test_services ''ab'' ''[]'' ''none'' True
     = Some (extract_from_chunks test_services (generate_prompt ''[]'' ''none'')
               [[CHR ''a'', CHR ''b'', CHR 0x0A]] True)"
    using t2 test_available test_split by simp
  ultimately show ?thesis using test_available by blast
qed

section \<open>Properties of the response parsing\<close>

lemma lazy_match_Some:
  assumes "lazy_match cs = Some (body, rest)"
  shows "cs = body @ CHR 0x7D # rest \<and> CHR 0x7D \<notin> set body \<and> CHR 0x0A \<notin> set body"
  using assms
proof (induction cs arbitrary: body)
  case Nil
  then show ?case by simp
next
  case (Cons c cs)
  show ?case
  proof (cases "c = CHR 0x7D")
    case True
    with Cons.prems show ?thesis by simp
  next
    case False
    with Cons.prems obtain b where
      m: "lazy_match cs = Some (b, rest)" and b: "body = c # b" and n: "c \<noteq> CHR 0x0A"
      by (auto split: if_splits option.splits)
    from Cons.IH [OF m] False b n show ?thesis by simp
  qed
qed

lemma lazy_match_None:
  assumes "CHR 0x0A \<notin> set cs" and "lazy_match cs = None"
  shows "CHR 0x7D \<notin> set cs"
  using assms
  by (induction cs) (auto split: if_splits option.splits)

lemma findall_no_close:
  "CHR 0x7D \<notin> set s \<Longrightarrow> re_findall_objects s = []"
proof (induction s rule: re_findall_objects.induct)
  case 1
  show ?case by simp
next
  case (2 c cs)
  have "lazy_match cs = None"
  proof (cases "lazy_match cs")
    case None
    then show ?thesis .
  next
    case (Some p)
    then obtain body rest where "lazy_match cs = Some (body, rest)" by (cases p) auto
    from lazy_match_Some [OF this] "2.prems" show ?thesis by auto
  qed
  with 2 show ?case by simp
qed

lemma findall_candidate_shape:
  "c \<in> set (re_findall_objects s) \<Longrightarrow>
     \<exists>body. c = CHR 0x7B # body @ [CHR 0x7D] \<and> CHR 0x7D \<notin> set body"
proof (induction s rule: re_findall_objects.induct)
  case 1
  then show ?case by simp
next
  case (2 d cs)
  show ?case
  proof (cases "d = CHR 0x7B")
    case False
    with 2 show ?thesis by simp
  next
    case True
    show ?thesis
    proof (cases "lazy_match cs")
      case None
      with True 2 show ?thesis by simp
    next
      case (Some p)
      then obtain body rest where m: "lazy_match cs = Some (body, rest)" by (cases p) auto
      from "2.prems" True m
      have "c = d # body @ [CHR 0x7D] \<or> c \<in> set (re_findall_objects rest)" by simp
      then show ?thesis
      proof
        assume "c = d # body @ [CHR 0x7D]"
        with True lazy_match_Some [OF m] show ?thesis by blast
      next
        assume "c \<in> set (re_findall_objects rest)"
        with "2.IH"(2) [OF True m refl] show ?thesis by simp
      qed
    qed
  qed
qed

lemma findall_decomposition:
  assumes "CHR 0x0A \<notin> set s"
  shows "\<exists>gaps tail. length gaps = length (re_findall_objects s) \<and>
           s = concat (map2 (@) gaps (re_findall_objects s)) @ tail \<and>
           (\<forall>g \<in> set gaps. CHR 0x7B \<notin> set g) \<and>
           CHR 0x7D \<notin> set (dropWhile (\<lambda>c. c \<noteq> CHR 0x7B) tail)"
  using assms
proof (induction s rule: re_findall_objects.induct)
  case 1
  show ?case by simp
next
  case (2 d cs)
  from "2.prems" have nl: "CHR 0x0A \<notin> set cs" by simp
  show ?case
  proof (cases "d = CHR 0x7B")
    case False
    from "2.IH"(3) [OF False nl] obtain gaps tail where
      l: "length gaps = length (re_findall_objects cs)" and
      e: "cs = concat (map2 (@) gaps (re_findall_objects cs)) @ tail" and
      g: "\<forall>g \<in> set gaps. CHR 0x7B \<notin> set g" and
      t: "CHR 0x7D \<notin> set (dropWhile (\<lambda>c. c \<noteq> CHR 0x7B) tail)"
      by blast
    have f: "re_findall_objects (d # cs) = re_findall_objects cs" using False by simp
    show ?thesis
    proof (cases gaps)
      case Nil
      with l have "re_findall_objects cs = []" by simp
      with e have "cs = tail" by simp
      with False t f \<open>re_findall_objects cs = []\<close> show ?thesis
        by (intro exI [of _ "[]"] exI [of _ "d # tail"]) simp
    next
      case (Cons g1 gs)
      with l obtain c1 rs where r: "re_findall_objects cs = c1 # rs"
        by (cases "re_findall_objects cs") auto
      have "d # cs = concat (map2 (@) ((d # g1) # gs) (c1 # rs)) @ tail"
        using e Cons r by simp
      moreover have "\<forall>g \<in> set ((d # g1) # gs). CHR 0x7B \<notin> set g"
        using g Cons False by auto
      moreover have "length ((d # g1) # gs) = length (c1 # rs)" using l Cons r by simp
      ultimately show ?thesis
        using t f r by (intro exI [of _ "(d # g1) # gs"] exI [of _ tail]) simp
    qed
  next
    case True
    show ?thesis
    proof (cases "lazy_match cs")
      case None
      from lazy_match_None [OF nl None] have nc: "CHR 0x7D \<notin> set cs" .
      have "re_findall_objects (d # cs) = []"
        using True None findall_no_close [OF nc] by simp
      with True nc show ?thesis
        by (intro exI [of _ "[]"] exI [of _ "d # cs"]) simp
    next
      case (Some p)
      then obtain body rest where m: "lazy_match cs = Some (body, rest)" by (cases p) auto
      from lazy_match_Some [OF m] have cs: "cs = body @ CHR 0x7D # rest" by simp
      with nl have "CHR 0x0A \<notin> set rest" by (metis Un_iff list.set_intros(2) set_append)
      from "2.IH"(2) [OF True m refl this] obtain gaps tail where
        l: "length gaps = length (re_findall_objects rest)" and
        e: "rest = concat (map2 (@) gaps (re_findall_objects rest)) @ tail" and
        g: "\<forall>g \<in> set gaps. CHR 0x7B \<notin> set g" and
        t: "CHR 0x7D \<notin> set (dropWhile (\<lambda>c. c \<noteq> CHR 0x7B) tail)"
        by blast
      have f: "re_findall_objects (d # cs) = (d # body @ [CHR 0x7D]) # re_findall_objects rest"
        using True m by simp
      have "d # cs = concat (map2 (@) ([] # gaps) (re_findall_objects (d # cs))) @ tail"
        using f cs e by simp
      moreover have "length ([] # gaps) = length (re_findall_objects (d # cs))"
        using f l by simp
      moreover have "\<forall>g \<in> set ([] # gaps). CHR 0x7B \<notin> set g" using g by simp
      ultimately show ?thesis using t by blast
    qed
  qed
qed

lemma collect_objects_map_filter:
  "collect_objects loads xs data = data @ List.map_filter loads xs"
  by (induction xs arbitrary: data) (auto split: option.splits)

lemma flatten_no_newline: "CHR 0x0A \<notin> set (flatten_newlines s)"
  by (auto simp: flatten_newlines_def)

text \<open>
  Claim C5. For every response text, the parsing works on the text with its line
  feeds replaced by spaces, takes as candidates the matches of the non-greedy
  pattern (each is an opening brace, a body without closing brace, and a closing
  brace; they lie in the text in order, with no opening brace in the text before
  each, and after the last one no opening brace is followed by a closing one), parses each
  candidate on its own and keeps exactly those that parse, in order. The response
  \<open>Here is the data: {"a": 1} and more text\<close> has the single candidate
  \<open>{"a": 1}\<close>, so it yields the one record that candidate parses to.
\<close>

theorem tolerant_response_parsing:
  "parse_response loads json_str =
     List.map_filter loads (re_findall_objects (flatten_newlines json_str)) \<and>
   CHR 0x0A \<notin> set (flatten_newlines json_str) \<and>
   (\<forall>c \<in> set (re_findall_objects (flatten_newlines json_str)).
      \<exists>body. c = CHR 0x7B # body @ [CHR 0x7D] \<and> CHR 0x7D \<notin> set body) \<and>
   (\<exists>gaps tail.
      length gaps = length (re_findall_objects (flatten_newlines json_str)) \<and>
      flatten_newlines json_str =
        concat (map2 (@) gaps (re_findall_objects (flatten_newlines json_str))) @ tail \<and>
      (\<forall>g \<in> set gaps. CHR 0x7B \<notin> set g) \<and>
      CHR 0x7D \<notin> set (dropWhile (\<lambda>c. c \<noteq> CHR 0x7B) tail)) \<and>
   re_findall_objects (flatten_newlines (''Here is the data: '' @ test_object @ '' and more text''))
     = [test_object] \<and>
   (loads test_object = Some r
      \<longrightarrow> parse_response loads (''Here is the data: '' @ test_object @ '' and more text'') = [r])"
proof -
  have c1: "parse_response loads s =
     List.map_filter loads (re_findall_objects (flatten_newlines s))" for s
    by (simp add: parse_response_def collect_objects_map_filter)
  have c2: "CHR 0x0A \<notin> set (flatten_newlines json_str)"
    by (rule flatten_no_newline)
  have c3: "\<forall>c \<in> set (re_findall_objects (flatten_newlines json_str)).
      \<exists>body. c = CHR 0x7B # body @ [CHR 0x7D] \<and> CHR 0x7D \<notin> set body"
    using findall_candidate_shape by blast
  have c4: "\<exists>gaps tail.
      length gaps = length (re_findall_objects (flatten_newlines json_str)) \<and>
      flatten_newlines json_str =
        concat (map2 (@) gaps (re_findall_objects (flatten_newlines json_str))) @ tail \<and>
      (\<forall>g \<in> set gaps. CHR 0x7B \<notin> set g) \<and>
      CHR 0x7D \<notin> set (dropWhile (\<lambda>c. c \<noteq> CHR 0x7B) tail)"
    by (rule findall_decomposition [OF c2])
  have c5: "re_findall_objects
              (flatten_newlines (''Here is the data: '' @ test_object @ '' and more text''))
              = [test_object]"
    by code_simp
  have c6: "loads test_object = Some r
      \<longrightarrow> parse_response loads (''Here is the data: '' @ test_object @ '' and more text'') = [r]"
    by (simp only: c1 c5) simp
  show ?thesis using c1 [of json_str] c2 c3 c4 c5 c6 by blast
qed

theorem tolerant_response_parsing_witness:
  "parse_response (json_loads test_services)
     (''Here is the data: '' @ test_object @ '' and more text'') = [[(''a'', 1)]] \<and>
   re_findall_objects
     (flatten_newlines (''x{bad} '' @ [CHR 0x0A] @ test_object @ ''{open''))
     = [''{bad}'', test_object] \<and>
   parse_response (json_loads test_services)
     (''x{bad} '' @ [CHR 0x0A] @ test_object @ ''{open'') = [[(''a'', 1)]]"
proof -
  note t1 = tolerant_response_parsing
      [of "json_loads test_services" "''Here is the data: '' @ test_object @ '' and more text''"
          "[(''a'', 1)]"]
  note t2 = tolerant_response_parsing
      [of "json_loads test_services" "''x{bad} '' @ [CHR 0x0A] @ test_object @ ''{open''"
          "[(''a'', 1)]"]
  have l: "json_loads test_services test_object = Some [(''a'', 1)]"
    by (simp add: test_services_def)
  have f: "re_findall_objects
     (flatten_newlines (''x{bad} '' @ [CHR 0x0A] @ test_object @ ''{open''))
     = [''{bad}'', test_object]"
    by code_simp
  have m: "List.map_filter (json_loads test_services) [''{bad}'', test_object] = [[(''a'', 1)]]"
    by code_simp
  have "parse_response (json_loads test_services)
     (''Here is the data: '' @ test_object @ '' and more text'') = [[(''a'', 1)]]"
    using t1 l by blast
  moreover have "parse_response (json_loads test_services)
     (''x{bad} '' @ [CHR 0x0A] @ test_object @ ''{open'') = [[(''a'', 1)]]"
    using t2 f m by simp
  ultimately show ?thesis using f by blast
qed

end
